theory Spec2Isabelle
  imports Complex_Main "HOL-Library.Char_ord" "HOL-Library.List_Lexorder" "HOL-Library.Product_Lexorder" "HOL-Library.Multiset"
begin

section \<open>The collaborators outside the repository\<close>

text \<open>
  \<^verbatim>\<open>agora_analytica/analytics/text.py\<close> holds two classes: \<open>VoikkoTokenizer\<close>, which
  stems Finnish text through the Voikko morphological analyser, and \<open>TextTopics\<close>, which
  compares two text collections through a fitted LDA topic model.

  A string is a list of characters, and a character stands for a code point below 256
  (Latin-1, which holds the Finnish alphabet).

  One reading of a word by \<open>Voikko.analyze\<close> is a dictionary. The code reads its key
  \<open>CLASS\<close> with \<open>.get("CLASS", None)\<close> (the key may be absent) and its key
  \<open>BASEFORM\<close>, which every reading of Voikko carries: \<open>_stem\<close> calls
  \<open>.lower()\<close> on it at once, and a reading without it (an \<open>AttributeError\<close> in
  Python) is no value of the record.
\<close>

record analysis =
  CLASS :: "string option"
  BASEFORM :: string

text \<open>
  What the interpreter and Voikko supply: \<open>Voikko.analyze\<close> and \<open>Voikko.suggest\<close>
  (pure functions of the word for a fixed dictionary), Python's \<open>str.lower\<close>, and the
  character class \<open>\w\<close> of the \<open>re\<close> module (letters, digits and the underscore of
  Unicode; neither the hyphen nor the colon belongs to it).
\<close>

record externals =
  voikko_analyze :: "string \<Rightarrow> analysis list"
  voikko_suggest :: "string \<Rightarrow> string list"
  lower :: "string \<Rightarrow> string"
  wordchar :: "char \<Rightarrow> bool"

section \<open>VoikkoTokenizer\<close>

text \<open>
  The state of one tokenizer: \<open>self.stem_map\<close>, the dictionary that
  \<open>@cached({})\<close> keeps for \<open>analyze\<close>, and (as a ghost field) the calls made to Voikko
  so far, oldest first.
\<close>

datatype voikko_call = Analyze string | Suggest string

record tokenizer =
  stem_map :: "string \<rightharpoonup> string"
  analyze_cache :: "string \<rightharpoonup> analysis list"
  voikko_calls :: "voikko_call list"

definition new_tokenizer :: tokenizer where
  "new_tokenizer = \<lparr>stem_map = Map.empty, analyze_cache = Map.empty, voikko_calls = []\<rparr>"

definition err_treshold :: real where
  "err_treshold = 0.5"

definition FINNISH_STOPWORD_CLASSES :: "string list" where
  "FINNISH_STOPWORD_CLASSES =
     [''huudahdussana'', ''seikkasana'', ''lukusana'', ''asemosana'', ''sidesana'',
      ''suhdesana'', ''kieltosana'']"

text \<open>
  \<open>re.findall(self.regex_words, s)\<close> for the pattern
  \<^verbatim>\<open>(\w+-(?:\w+)+|\w{1,})|(?::[\w]*)\<close>: scanning from the left, at a word character the
  longest run of word characters is taken, together with a hyphen and the next run when
  the run is followed by a hyphen and a word character; at a colon the colon and the word
  characters after it are consumed and the (absent) group gives the empty string; any
  other character is skipped.
\<close>

function regex_words :: "externals \<Rightarrow> string \<Rightarrow> string list" where
  "regex_words E [] = []"
| "regex_words E (c # cs) =
     (if wordchar E c then
        (let run = takeWhile (wordchar E) (c # cs);
             rest = dropWhile (wordchar E) (c # cs)
         in case rest of
              [] \<Rightarrow> [run]
            | d # ds \<Rightarrow>
                (case ds of
                   [] \<Rightarrow> run # regex_words E rest
                 | e # es \<Rightarrow>
                     if d = CHR ''-'' \<and> wordchar E e
                     then (run @ d # takeWhile (wordchar E) ds)
                            # regex_words E (dropWhile (wordchar E) ds)
                     else run # regex_words E rest))
      else if c = CHR '':'' then [] # regex_words E (dropWhile (wordchar E) cs)
      else regex_words E cs)"
  by pat_completeness auto
termination
proof (relation "measure (\<lambda>(E, s). length s)", goal_cases)
  case 1
  then show ?case by simp
next
  case (2 E c cs run rest d ds)
  then show ?case using length_dropWhile_le[of "wordchar E" cs] by simp
next
  case (3 E c cs run rest d ds e es)
  have "length (dropWhile (wordchar E) ds) \<le> length ds" by (rule length_dropWhile_le)
  moreover have "length (d # ds) \<le> length cs"
    using 3 length_dropWhile_le[of "wordchar E" cs] by simp
  ultimately show ?case by simp
next
  case (4 E c cs run rest d ds e es)
  then show ?case using length_dropWhile_le[of "wordchar E" cs] by simp
next
  case (5 E c cs)
  then show ?case using length_dropWhile_le[of "wordchar E" cs] by simp
next
  case (6 E c cs)
  then show ?case by simp
qed

text \<open>
  \<open>analyze\<close> is the method under \<open>@cached({})\<close>: a word asked before is answered from
  the dictionary of the decorator, any other word goes to Voikko and the answer (empty or
  not) is kept.
\<close>

definition analyze :: "externals \<Rightarrow> string \<Rightarrow> tokenizer \<Rightarrow> analysis list \<times> tokenizer" where
  "analyze E word T =
     (case analyze_cache T word of
        Some a \<Rightarrow> (a, T)
      | None \<Rightarrow>
          (let a = voikko_analyze E word
           in (a, T\<lparr>analyze_cache := (analyze_cache T)(word \<mapsto> a),
                     voikko_calls := voikko_calls T @ [Analyze word]\<rparr>)))"

definition suggest :: "externals \<Rightarrow> string \<Rightarrow> tokenizer \<Rightarrow> string list \<times> tokenizer" where
  "suggest E word T =
     (voikko_suggest E word, T\<lparr>voikko_calls := voikko_calls T @ [Suggest word]\<rparr>)"

text \<open>
  The \<open>for _word in analysis\<close> loop of \<open>_stem\<close>: the first reading whose class is not
  one of the stopword classes. A reading without the key \<open>CLASS\<close> has class \<open>None\<close>,
  which is not in the list.
\<close>

fun first_suitable :: "analysis list \<Rightarrow> analysis option" where
  "first_suitable [] = None"
| "first_suitable (w # ws) =
     (if (case CLASS w of None \<Rightarrow> True | Some c \<Rightarrow> c \<notin> set FINNISH_STOPWORD_CLASSES)
      then Some w else first_suitable ws)"

text \<open>The two places where \<open>_stem\<close> writes \<open>self.stem_map[word]\<close> and returns.\<close>

definition store_stem :: "string \<Rightarrow> string \<Rightarrow> nat \<Rightarrow> tokenizer \<Rightarrow> string list \<times> nat \<times> tokenizer" where
  "store_stem word s err_count T = ([s], err_count, T\<lparr>stem_map := (stem_map T)(word \<mapsto> s)\<rparr>)"

text \<open>
  \<open>tokenize_paragraph\<close> with its inner function \<open>_stem\<close>. The counter
  \<open>err_count\<close> belongs to one call of \<open>tokenize_paragraph\<close>: \<open>_stem\<close> receives it and
  returns it, and the call on a suggestion starts a counter of its own. \<open>stem_each\<close>
  is \<open>map(_stem, r)\<close>, which the \<open>*\<close> of \<open>chain(*...)\<close> runs to its end, word by
  word, before anything is filtered.
\<close>

function tokenize_paragraph :: "externals \<Rightarrow> string \<Rightarrow> bool \<Rightarrow> tokenizer \<Rightarrow> string list \<times> tokenizer"
  and stem :: "externals \<Rightarrow> bool \<Rightarrow> string \<Rightarrow> nat \<Rightarrow> tokenizer \<Rightarrow> string list \<times> nat \<times> tokenizer"
  and stem_each :: "externals \<Rightarrow> bool \<Rightarrow> string list \<Rightarrow> nat \<Rightarrow> tokenizer \<Rightarrow> string list list \<times> nat \<times> tokenizer"
where
  "tokenize_paragraph E sentence use_suggestions T =
     (case stem_each E use_suggestions
             (filter (\<lambda>x. x \<noteq> []) (regex_words E (lower E sentence))) 0 T of
        (rs, err_count, T') \<Rightarrow>
          (let r = filter (\<lambda>x. x \<noteq> []) (concat rs)
           in if real (length r) * err_treshold < real err_count then ([], T') else (r, T')))"
| "stem E use_suggestions word err_count T =
     (case stem_map T word of
        Some stemmed_word \<Rightarrow> ([stemmed_word], err_count, T)
      | None \<Rightarrow>
          (case analyze E word T of
             (analysis, T1) \<Rightarrow>
               if analysis = [] then
                 (if use_suggestions then
                    (case suggest E word T1 of
                       (suggestions, T2) \<Rightarrow>
                         (case suggestions of
                            suggested # xs \<Rightarrow>
                              (case tokenize_paragraph E suggested False T2 of
                                 (r, T3) \<Rightarrow> (r, err_count + 1, T3))
                          | [] \<Rightarrow> store_stem word (lower E word) (err_count + 1) T2))
                  else store_stem word (lower E word) (err_count + 1) T1)
               else
                 (case first_suitable analysis of
                    Some w \<Rightarrow> store_stem word (lower E (BASEFORM w)) err_count T1
                  | None \<Rightarrow> store_stem word (lower E word) err_count T1)))"
| "stem_each E use_suggestions [] err_count T = ([], err_count, T)"
| "stem_each E use_suggestions (word # r) err_count T =
     (case stem E use_suggestions word err_count T of
        (s, err_count1, T1) \<Rightarrow>
          (case stem_each E use_suggestions r err_count1 T1 of
             (ss, err_count2, T2) \<Rightarrow> (s # ss, err_count2, T2)))"
  by pat_completeness auto
termination
  by (relation "measures
        [\<lambda>x. case x of Inl (E, s, u, T) \<Rightarrow> (if u then 1 else 0)
                  | Inr (Inl (E, u, w, n, T)) \<Rightarrow> (if u then 1 else 0)
                  | Inr (Inr (E, u, ws, n, T)) \<Rightarrow> (if u then 1 else 0),
         \<lambda>x. case x of Inl (E, s, u, T) \<Rightarrow> 2
                  | Inr (Inl (E, u, w, n, T)) \<Rightarrow> 0
                  | Inr (Inr (E, u, ws, n, T)) \<Rightarrow> 1,
         \<lambda>x. case x of Inl (E, s, u, T) \<Rightarrow> 0
                  | Inr (Inl (E, u, w, n, T)) \<Rightarrow> 0
                  | Inr (Inr (E, u, ws, n, T)) \<Rightarrow> length ws]") auto

text \<open>
  \<open>tokenize\<close>: \<open>text.splitlines()\<close>, then \<open>tokenize_paragraph\<close> on every line in turn
  (with the default \<open>use_suggestions=True\<close>), the results chained. Python ends a line at
  a line feed, a carriage return (with the line feed after it, if any), a vertical tab, a
  form feed, the separators \<open>\x1c\<close>, \<open>\x1d\<close>, \<open>\x1e\<close> and the next-line character
  \<open>\x85\<close> (and at two separators beyond code point 255, which strings here do not
  hold); no empty last line is reported.
\<close>

definition linebreak :: "char \<Rightarrow> bool" where
  "linebreak c = (of_char c \<in> {10, 11, 12, 13, 28, 29, 30, 133 :: nat})"

fun splitlines_from :: "string \<Rightarrow> string \<Rightarrow> string list" where
  "splitlines_from cur [] = (if cur = [] then [] else [rev cur])"
| "splitlines_from cur (c # cs) =
     (if linebreak c then
        (case cs of
           d # ds \<Rightarrow> if of_char c = (13 :: nat) \<and> of_char d = (10 :: nat)
                     then rev cur # splitlines_from [] ds
                     else rev cur # splitlines_from [] cs
         | [] \<Rightarrow> [rev cur])
      else splitlines_from (c # cur) cs)"

definition splitlines :: "string \<Rightarrow> string list" where
  "splitlines s = splitlines_from [] s"

fun tokenize_paragraphs :: "externals \<Rightarrow> string list \<Rightarrow> tokenizer \<Rightarrow> string list list \<times> tokenizer" where
  "tokenize_paragraphs E [] T = ([], T)"
| "tokenize_paragraphs E (p # ps) T =
     (case tokenize_paragraph E p True T of
        (r, T1) \<Rightarrow> (case tokenize_paragraphs E ps T1 of (rs, T2) \<Rightarrow> (r # rs, T2)))"

definition tokenize :: "externals \<Rightarrow> string \<Rightarrow> tokenizer \<Rightarrow> string list \<times> tokenizer" where
  "tokenize E text T =
     (case tokenize_paragraphs E (splitlines text) T of (rs, T') \<Rightarrow> (concat rs, T'))"

section \<open>TextTopics\<close>

text \<open>
  The exceptions the methods below let through: the \<open>RuntimeError\<close> of
  \<open>find_topic_word\<close>, the \<open>IndexError\<close> of a subscript out of range, and the
  \<open>ValueError\<close> numpy raises for an empty \<open>argmax\<close> or for shapes it cannot broadcast.
\<close>

datatype error = RuntimeError | IndexError | ValueError

text \<open>
  A float of a pandas series is a real number or \<open>NaN\<close>; \<open>None\<close> stands for \<open>NaN\<close>.
\<close>

type_synonym npfloat = "real option"

text \<open>
  What the fitted model supplies: \<open>vector_words\<close> is
  \<open>self._count_vector.get_feature_names()\<close>, \<open>lda_components\<close> is
  \<open>self._lda.components_\<close> (a numpy array, so rectangular: a row for every topic, a
  column for every word of the vocabulary), and \<open>transform_mean\<close> is the body of
  \<open>_get_topics\<close>, \<open>self._lda.transform(self._count_vector.transform(source)).mean(axis=0)\<close>.
  The vectorizer runs a tokenizer on every text, which is why the tokenizer state goes in
  and comes out; whatever the two libraries raise is an error value.

  The record also holds what the numpy of the platform decides. \<open>argsort\<close> with its
  default kind, which \<open>topic_words\<close> calls and on which the sorts of pandas rest, leaves
  the order among equal values open. \<open>float_ties xs i\<close> is the place the platform gives
  to index \<open>i\<close> among the indexes of the float array \<open>xs\<close> that hold the same value,
  \<open>int_ties\<close> the same for an integer array; indexes with the same place stay in index
  order.
\<close>

record topic_model =
  vector_words :: "string list"
  lda_components :: "real list list"
  transform_mean :: "string list \<Rightarrow> tokenizer \<Rightarrow> (error + real list) \<times> tokenizer"
  float_ties :: "real list \<Rightarrow> nat \<Rightarrow> nat"
  int_ties :: "nat list \<Rightarrow> nat \<Rightarrow> nat"

text \<open>
  The state of one \<open>TextTopics\<close> object: its tokenizer and the dictionaries of the
  \<open>@cached({})\<close> decorators on \<open>_get_topics\<close>, \<open>find_topic_word\<close> and
  \<open>_suitable_topic_word\<close>. The decorators on \<open>topic_words\<close> and \<open>vector_words\<close>
  memoise functions of the fitted model alone, which never changes; they are left out.
  A call that raises leaves no entry.
\<close>

record text_topics =
  tokenizer_of :: tokenizer
  get_topics_cache :: "string list \<rightharpoonup> real list"
  find_topic_word_cache :: "string list \<times> nat \<rightharpoonup> string"
  suitable_topic_word_cache :: "string \<rightharpoonup> bool"

definition new_text_topics :: text_topics where
  "new_text_topics =
     \<lparr>tokenizer_of = new_tokenizer, get_topics_cache = Map.empty,
      find_topic_word_cache = Map.empty, suitable_topic_word_cache = Map.empty\<rparr>"

subsection \<open>topic_words\<close>

text \<open>
  \<open>argsort()\<close> (the indexes by ascending value, equal values in the order of the
  platform), \<open>r[key] = value\<close> on a dictionary kept in insertion order, and numpy's
  division, which gives \<open>NaN\<close> for \<open>0 / 0\<close> where Python would raise. (A non-zero
  weight over a zero sum gives an infinity; the weights of a topic model are not negative,
  so a zero sum has zero terms.)
\<close>

definition argsort :: "('v :: linorder list \<Rightarrow> nat \<Rightarrow> nat) \<Rightarrow> 'v list \<Rightarrow> nat list" where
  "argsort ties xs = sort_key (\<lambda>i. (xs ! i, ties xs i)) [0..<length xs]"

fun dict_set :: "('k \<times> 'v) list \<Rightarrow> 'k \<Rightarrow> 'v \<Rightarrow> ('k \<times> 'v) list" where
  "dict_set [] k v = [(k, v)]"
| "dict_set ((k', v') # r) k v =
     (if k' = k then (k, v) # r else (k', v') # dict_set r k v)"

definition np_divide :: "real \<Rightarrow> real \<Rightarrow> npfloat" where
  "np_divide x y = (if y = 0 then None else Some (x / y))"

fun topic_words_loop ::
  "topic_model \<Rightarrow> nat \<Rightarrow> nat list \<Rightarrow> (string \<times> npfloat) list \<Rightarrow> error + (string \<times> npfloat) list"
where
  "topic_words_loop M topic [] r = Inr r"
| "topic_words_loop M topic (wid # wids) r =
     (if wid < length (vector_words M)
      then topic_words_loop M topic wids
             (dict_set r (vector_words M ! wid)
                (np_divide (lda_components M ! topic ! wid)
                   (sum_list (map (\<lambda>x. x ! wid) (lda_components M)))))
      else Inl IndexError)"

definition topic_words :: "topic_model \<Rightarrow> nat \<Rightarrow> error + (string \<times> npfloat) list" where
  "topic_words M topic =
     (if topic < length (lda_components M)
      then topic_words_loop M topic (rev (argsort (float_ties M) (lda_components M ! topic))) []
      else Inl IndexError)"

subsection \<open>The pandas series of find_topic_word\<close>

text \<open>
  A series is the list of its (label, value) pairs in index order.

  The descending sort of pandas reverses the entries, sorts them ascending with
  \<open>argsort\<close> and reverses the outcome. Where \<open>argsort\<close> keeps equal values in
  place, equal values come out in index order.

  \<open>sort_values(ascending=False)\<close> sorts the entries that are not \<open>NaN\<close> so; the
  \<open>NaN\<close> entries follow in index order.
\<close>

definition nargsort_descending ::
  "('v :: linorder list \<Rightarrow> nat \<Rightarrow> nat) \<Rightarrow> ('a \<Rightarrow> 'v) \<Rightarrow> 'a list \<Rightarrow> 'a list"
where
  "nargsort_descending ties key s =
     rev (map (\<lambda>i. rev s ! i) (argsort ties (map key (rev s))))"


definition notna :: "(string \<times> npfloat) list \<Rightarrow> (string \<times> real) list" where
  "notna s = concat (map (\<lambda>(k, v). case v of None \<Rightarrow> [] | Some x \<Rightarrow> [(k, x)]) s)"

definition isna :: "(string \<times> npfloat) list \<Rightarrow> (string \<times> npfloat) list" where
  "isna s = filter (\<lambda>kv. snd kv = None) s"

definition sort_values ::
  "(real list \<Rightarrow> nat \<Rightarrow> nat) \<Rightarrow> (string \<times> npfloat) list \<Rightarrow> (string \<times> npfloat) list"
where
  "sort_values ties s =
     map (\<lambda>(k, x). (k, Some x)) (nargsort_descending ties snd (notna s)) @ isna s"

text \<open>
  \<open>pd.Series(tokens).value_counts()\<close>: the distinct tokens in the order of their
  first occurrence, each with the number of its occurrences, put in descending order by
  the same sort: most frequent first, and equal counts in the order of first occurrence
  where \<open>argsort\<close> keeps equal values in place.
\<close>

definition value_counts :: "(nat list \<Rightarrow> nat \<Rightarrow> nat) \<Rightarrow> string list \<Rightarrow> (string \<times> nat) list" where
  "value_counts ties xs =
     nargsort_descending ties snd (map (\<lambda>w. (w, count_list xs w)) (rev (remdups (rev xs))))"

text \<open>
  \<open>source.map(np.log) * words\<close>. The two series are aligned on the union of their
  indexes: the index as it is when both are equal or one is empty, the sorted union
  otherwise. A label that one of the two series lacks gets \<open>NaN\<close>.
\<close>

definition map_log :: "(string \<times> nat) list \<Rightarrow> (string \<times> npfloat) list" where
  "map_log s = map (\<lambda>(k, c). (k, Some (ln (real c)))) s"

definition align_index :: "string list \<Rightarrow> string list \<Rightarrow> string list" where
  "align_index l r =
     (if l = r \<or> r = [] then l else if l = [] then r else sort (remdups (l @ r)))"

definition series_mul ::
  "(string \<times> npfloat) list \<Rightarrow> (string \<times> npfloat) list \<Rightarrow> (string \<times> npfloat) list"
where
  "series_mul a b =
     map (\<lambda>k. (k, case (map_of a k, map_of b k) of
                     (Some (Some x), Some (Some y)) \<Rightarrow> Some (x * y)
                   | _ \<Rightarrow> None))
       (align_index (map fst a) (map fst b))"

subsection \<open>_suitable_topic_word and find_topic_word\<close>

fun has_noun_reading :: "analysis list \<Rightarrow> bool" where
  "has_noun_reading [] = False"
| "has_noun_reading (morph # ms) =
     (if CLASS morph = Some ''nimi'' \<or> CLASS morph = Some ''nimisana'' then True
      else has_noun_reading ms)"

definition suitable_topic_word :: "externals \<Rightarrow> string \<Rightarrow> text_topics \<Rightarrow> bool \<times> text_topics" where
  "suitable_topic_word E word S =
     (case suitable_topic_word_cache S word of
        Some b \<Rightarrow> (b, S)
      | None \<Rightarrow>
          (case analyze E word (tokenizer_of S) of
             (morphs, T') \<Rightarrow>
               (has_noun_reading morphs,
                S\<lparr>tokenizer_of := T',
                  suitable_topic_word_cache :=
                    (suitable_topic_word_cache S)(word \<mapsto> has_noun_reading morphs)\<rparr>)))"

text \<open>The \<open>for word, c in ... .iteritems()\<close> loop: the first suitable word, if any.\<close>

fun first_suitable_word ::
  "externals \<Rightarrow> (string \<times> npfloat) list \<Rightarrow> text_topics \<Rightarrow> string option \<times> text_topics"
where
  "first_suitable_word E [] S = (None, S)"
| "first_suitable_word E ((word, c) # rest) S =
     (case suitable_topic_word E word S of
        (True, S1) \<Rightarrow> (Some word, S1)
      | (False, S1) \<Rightarrow> first_suitable_word E rest S1)"

text \<open>\<open>"\n\n".join(text)\<close>\<close>

fun join_texts :: "string list \<Rightarrow> string" where
  "join_texts [] = []"
| "join_texts [t] = t"
| "join_texts (t # ts) = t @ [CHR 0x0A, CHR 0x0A] @ join_texts ts"

text \<open>
  \<open>find_topic_word\<close> under its decorator. The two debugging lines build a frame for
  the logger and change nothing.
\<close>

definition find_topic_word ::
  "externals \<Rightarrow> topic_model \<Rightarrow> string list \<Rightarrow> nat \<Rightarrow> text_topics \<Rightarrow> (error + string) \<times> text_topics"
where
  "find_topic_word E M text topic_id S =
     (case find_topic_word_cache S (text, topic_id) of
        Some word \<Rightarrow> (Inr word, S)
      | None \<Rightarrow>
          (case tokenize E (join_texts text) (tokenizer_of S) of
             (tokens, T1) \<Rightarrow>
               (let S1 = S\<lparr>tokenizer_of := T1\<rparr>;
                    source = value_counts (int_ties M) tokens
                in case topic_words M topic_id of
                     Inl e \<Rightarrow> (Inl e, S1)
                   | Inr words \<Rightarrow>
                       (let counts = series_mul (map_log source) words
                        in case first_suitable_word E (sort_values (float_ties M) counts) S1 of
                             (Some word, S2) \<Rightarrow>
                               (Inr word,
                                S2\<lparr>find_topic_word_cache :=
                                     (find_topic_word_cache S2)((text, topic_id) \<mapsto> word)\<rparr>)
                           | (None, S2) \<Rightarrow> (Inl RuntimeError, S2)))))"

subsection \<open>compare_series\<close>









section \<open>Notions the statements use\<close>

text \<open>
  A reading has a stopword class when its \<open>CLASS\<close> is one of the seven listed classes.
  \<open>stem_of\<close> is the stem that \<open>_stem\<close> writes into \<open>stem_map\<close> for a word: the
  lowercase base form of the first reading that has no stopword class, and the lowercase
  word itself when there is no such reading (in particular when there is no reading).
\<close>

definition stopword_class :: "analysis \<Rightarrow> bool" where
  "stopword_class w =
     (case CLASS w of None \<Rightarrow> False | Some c \<Rightarrow> c \<in> set FINNISH_STOPWORD_CLASSES)"

definition stem_of :: "externals \<Rightarrow> string \<Rightarrow> string" where
  "stem_of E word =
     (case find (\<lambda>w. \<not> stopword_class w) (voikko_analyze E word) of
        Some w \<Rightarrow> lower E (BASEFORM w)
      | None \<Rightarrow> lower E word)"

definition unresolved :: "externals \<Rightarrow> string \<Rightarrow> bool" where
  "unresolved E word = (voikko_analyze E word = [])"

text \<open>
  A tokenizer state is consistent with Voikko when its two dictionaries hold nothing but
  what the code writes into them: analyses that Voikko gave and stems that \<open>_stem\<close>
  computed. A new tokenizer is consistent, and every method keeps a tokenizer so.
\<close>

definition consistent :: "externals \<Rightarrow> tokenizer \<Rightarrow> bool" where
  "consistent E T =
     ((\<forall>w s. stem_map T w = Some s \<longrightarrow> s = stem_of E w) \<and>
      (\<forall>w a. analyze_cache T w = Some a \<longrightarrow> a = voikko_analyze E w))"

text \<open>The words of a paragraph: what the first list comprehension of
  \<open>tokenize_paragraph\<close> yields.\<close>

definition paragraph_words :: "externals \<Rightarrow> string \<Rightarrow> string list" where
  "paragraph_words E sentence =
     filter (\<lambda>x. x \<noteq> []) (regex_words E (lower E sentence))"

text \<open>
  The stems a word stands for when no cache is involved: its own stem when Voikko knows
  it or has no suggestion for it, the non-empty stems of the words of the first
  suggestion otherwise.
\<close>

definition word_stems :: "externals \<Rightarrow> string \<Rightarrow> string list" where
  "word_stems E word =
     (if unresolved E word then
        (case voikko_suggest E word of
           [] \<Rightarrow> [lower E word]
         | suggested # xs \<Rightarrow>
             filter (\<lambda>x. x \<noteq> []) (map (stem_of E) (paragraph_words E suggested)))
      else [stem_of E word])"

text \<open>
  \<open>_stem\<close> goes through a suggestion when the word is not in \<open>stem_map\<close>, its
  analysis is empty, suggestions are asked for and Voikko has one.
\<close>

definition through_suggestion :: "externals \<Rightarrow> bool \<Rightarrow> string \<Rightarrow> tokenizer \<Rightarrow> bool" where
  "through_suggestion E use_suggestions word T =
     (stem_map T word = None \<and> fst (analyze E word T) = [] \<and> use_suggestions \<and>
      voikko_suggest E word \<noteq> [])"

text \<open>The calls of \<open>Voikko.suggest\<close> among the calls made so far.\<close>

fun suggest_calls :: "voikko_call list \<Rightarrow> string list" where
  "suggest_calls [] = []"
| "suggest_calls (Analyze w # cs) = suggest_calls cs"
| "suggest_calls (Suggest w # cs) = w # suggest_calls cs"

text \<open>
  What \<open>topic_words\<close> assigns to a word: the value of the dictionary at the word;
  \<open>None\<close> when the call raises, the word is no key, or the value is \<open>NaN\<close>.
\<close>

definition ranking :: "topic_model \<Rightarrow> nat \<Rightarrow> string \<Rightarrow> real option" where
  "ranking M topic word =
     (case topic_words M topic of
        Inl e \<Rightarrow> None
      | Inr r \<Rightarrow> (case map_of r word of None \<Rightarrow> None | Some v \<Rightarrow> v))"


text \<open>
  The state of a \<open>TextTopics\<close> object is consistent when its tokenizer is and the
  dictionary of \<open>_suitable_topic_word\<close> holds what the method computes.
\<close>

definition consistent_topics :: "externals \<Rightarrow> text_topics \<Rightarrow> bool" where
  "consistent_topics E S =
     (consistent E (tokenizer_of S) \<and>
      (\<forall>w b. suitable_topic_word_cache S w = Some b
          \<longrightarrow> b = has_noun_reading (voikko_analyze E w)))"

section \<open>An example dictionary\<close>

text \<open>
  A small Voikko for the concrete instances: three nouns, a verb and an adverb; a
  misspelling with two suggestions; and two place names, which this Voikko knows with
  their capital letter only, so that a suggested place name is an unknown word again once
  \<open>tokenize_paragraph\<close> has lowered it. Text is ASCII here.
\<close>

definition ascii_lower :: "string \<Rightarrow> string" where
  "ascii_lower s =
     map (\<lambda>c. case map_of (zip ''ABCDEFGHIJKLMNOPQRSTUVWXYZ'' ''abcdefghijklmnopqrstuvwxyz'') c of
                Some d \<Rightarrow> d
              | None \<Rightarrow> c) s"

definition ascii_wordchar :: "char \<Rightarrow> bool" where
  "ascii_wordchar c =
     (c \<in> set ''abcdefghijklmnopqrstuvwxyzABCDEFGHIJKLMNOPQRSTUVWXYZ0123456789_'')"

definition example_analyze :: "string \<Rightarrow> analysis list" where
  "example_analyze word =
     (if word = ''koirat'' \<or> word = ''koira''
      then [\<lparr>CLASS = Some ''nimisana'', BASEFORM = ''koira''\<rparr>]
      else if word = ''kissa'' then [\<lparr>CLASS = Some ''nimisana'', BASEFORM = ''kissa''\<rparr>]
      else if word = ''juoksivat'' \<or> word = ''juosta''
      then [\<lparr>CLASS = Some ''teonsana'', BASEFORM = ''juosta''\<rparr>]
      else if word = ''nopeasti'' then [\<lparr>CLASS = Some ''seikkasana'', BASEFORM = ''nopeasti''\<rparr>]
      else [])"

definition example_suggest :: "string \<Rightarrow> string list" where
  "example_suggest word =
     (if word = ''koirra'' then [''koira'', ''koiraa'']
      else if word = ''helsinki'' then [''Helsinki'']
      else if word = ''tampre'' then [''Tampere'']
      else [])"

definition example_voikko :: externals where
  "example_voikko =
     \<lparr>voikko_analyze = example_analyze, voikko_suggest = example_suggest,
      lower = ascii_lower, wordchar = ascii_wordchar\<rparr>"

section \<open>Example models\<close>

text \<open>
  A model of two topics over three words, the first topic about cats and the second about
  dogs, and a model of one topic whose vocabulary is a single verb. Their
  \<open>transform_mean\<close> answers from a table and leaves the tokenizer alone. On their
  platform \<open>argsort\<close> keeps equal values in place.
\<close>

definition example_model :: topic_model where
  "example_model =
     \<lparr>vector_words = [''juosta'', ''kissa'', ''koira''],
      lda_components = [[2, 6, 1], [2, 2, 3]],
      transform_mean =
        (\<lambda>source T.
           (if source = [] then Inl ValueError
            else if source = [''kissa juoksivat''] then Inr [0.8, 0.2]
            else Inr [0.3, 0.7], T)),
      float_ties = (\<lambda>xs i. 0),
      int_ties = (\<lambda>xs i. 0)\<rparr>"

definition verb_model :: topic_model where
  "verb_model =
     \<lparr>vector_words = [''juosta''],
      lda_components = [[1]],
      transform_mean = (\<lambda>source T. (Inr [1], T)),
      float_ties = (\<lambda>xs i. 0),
      int_ties = (\<lambda>xs i. 0)\<rparr>"



section \<open>The model on concrete inputs\<close>

text \<open>
  The word pattern, \<open>splitlines\<close> and the whole tokenizer on small inputs, with the
  results that Python gives for them.
\<close>

lemma regex_words_examples:
  "regex_words example_voikko ''ab-cd-ef x:y zz a--b -c d- eu:n''
     = [''ab-cd'', ''ef'', ''x'', [], ''zz'', ''a'', ''b'', ''c'', ''d'', ''eu'', []]"
  "regex_words example_voikko ''a-b:c-d'' = [''a-b'', [], ''d'']"
  "regex_words example_voikko ''a_b-1 2'' = [''a_b-1'', ''2'']"
  "regex_words example_voikko ''x-:y'' = [''x'', []]"
  by (simp_all add: example_voikko_def ascii_wordchar_def)

lemma splitlines_examples:
  "splitlines (''ab'' @ [CHR 0x0A, CHR 0x0A] @ ''cd'' @ [CHR 0x0D, CHR 0x0A]) = [''ab'', [], ''cd'']"
  "splitlines (''a'' @ [CHR 0x0A]) = [''a'']"
  "splitlines [CHR 0x0A] = [[]]"
  "splitlines [] = []"
  by (simp_all add: splitlines_def linebreak_def)

lemma tokenize_paragraph_examples:
  "fst (tokenize_paragraph example_voikko ''Koirat juoksivat nopeasti.'' True new_tokenizer)
     = [''koira'', ''juosta'', ''nopeasti'']"
  "fst (tokenize_paragraph example_voikko ''koirat aaa bbb ccc'' True new_tokenizer) = []"
  "fst (tokenize_paragraph example_voikko ''koirra kissa'' True new_tokenizer)
     = [''koira'', ''kissa'']"
  by (simp_all add: tokenize_paragraph.simps stem.simps example_voikko_def ascii_lower_def
        ascii_wordchar_def example_analyze_def example_suggest_def new_tokenizer_def analyze_def
        suggest_def store_stem_def err_treshold_def FINNISH_STOPWORD_CLASSES_def Let_def)


section \<open>The tokenizer: auxiliary facts\<close>

declare tokenize_paragraph.simps [simp del] stem.simps [simp del]

lemma first_suitable_find: "first_suitable ws = find (\<lambda>w. \<not> stopword_class w) ws"
  by (induction ws) (auto simp: stopword_class_def split: option.splits)

lemma stem_of_unresolved: "unresolved E word \<Longrightarrow> stem_of E word = lower E word"
  by (simp add: stem_of_def unresolved_def)

lemma consistent_new: "consistent E new_tokenizer"
  by (simp add: consistent_def new_tokenizer_def)

lemma analyze_consistent:
  assumes "consistent E T"
  shows "fst (analyze E word T) = voikko_analyze E word"
    and "consistent E (snd (analyze E word T))"
    and "stem_map (snd (analyze E word T)) = stem_map T"
  using assms by (auto simp: analyze_def consistent_def Let_def split: option.splits)

lemma suggest_simps [simp]:
  "fst (suggest E word T) = voikko_suggest E word"
  "stem_map (snd (suggest E word T)) = stem_map T"
  "analyze_cache (snd (suggest E word T)) = analyze_cache T"
  "voikko_calls (snd (suggest E word T)) = voikko_calls T @ [Suggest word]"
  by (simp_all add: suggest_def)

lemma consistent_suggest [simp]: "consistent E (snd (suggest E word T)) = consistent E T"
  by (simp add: consistent_def)

lemma consistent_store:
  "consistent E T \<Longrightarrow> consistent E (T\<lparr>stem_map := (stem_map T)(word \<mapsto> stem_of E word)\<rparr>)"
  by (simp add: consistent_def)

text \<open>A word that is in \<open>stem_map\<close>, or that Voikko knows, is stemmed on the spot.\<close>

lemma stem_known:
  assumes "consistent E T" and "stem_map T word \<noteq> None \<or> \<not> unresolved E word"
  shows "\<exists>T'. stem E u word n T = ([stem_of E word], n, T')
            \<and> consistent E T'
            \<and> stem_map T' = (stem_map T)(word \<mapsto> stem_of E word)"
proof (cases "stem_map T word")
  case (Some s)
  with assms have "s = stem_of E word" by (simp add: consistent_def)
  with Some assms show ?thesis by (auto simp: stem.simps)
next
  case None
  obtain a T1 where a: "analyze E word T = (a, T1)" by (cases "analyze E word T")
  from analyze_consistent[OF assms(1), of word] a
  have a1: "a = voikko_analyze E word" "consistent E T1" "stem_map T1 = stem_map T" by simp_all
  show ?thesis
    using None assms(2) a a1 consistent_store[OF a1(2), of word]
    by (auto simp: stem.simps store_stem_def unresolved_def stem_of_def first_suitable_find
             split: option.splits)
qed

text \<open>An unknown word outside \<open>stem_map\<close>, when no suggestion is asked for or none is
  given, counts as an error and is kept as it is.\<close>

lemma stem_unknown:
  assumes "consistent E T" and "stem_map T word = None" and "unresolved E word"
    and "\<not> u \<or> voikko_suggest E word = []"
  shows "\<exists>T'. stem E u word n T = ([lower E word], n + 1, T')
            \<and> consistent E T'
            \<and> stem_map T' = (stem_map T)(word \<mapsto> stem_of E word)"
proof -
  obtain a T1 where a: "analyze E word T = (a, T1)" by (cases "analyze E word T")
  from analyze_consistent[OF assms(1), of word] a
  have a1: "a = voikko_analyze E word" "consistent E T1" "stem_map T1 = stem_map T" by simp_all
  obtain g T2 where g: "suggest E word T1 = (g, T2)" by (cases "suggest E word T1")
  then have g1: "g = voikko_suggest E word" "stem_map T2 = stem_map T1" "consistent E T2 = consistent E T1"
    using suggest_simps(1,2)[of E word T1] consistent_suggest[of E word T1] by simp_all
  have l: "lower E word = stem_of E word" using assms(3) by (simp add: stem_of_unresolved)
  show ?thesis
  proof (cases u)
    case True
    with assms(4) have "voikko_suggest E word = []" by simp
    with True assms(2,3) a a1 g g1 consistent_store[of E T2 word] l show ?thesis
      by (auto simp: stem.simps store_stem_def unresolved_def)
  next
    case False
    with assms(2,3) a a1 consistent_store[of E T1 word] l show ?thesis
      by (auto simp: stem.simps store_stem_def unresolved_def)
  qed
qed

text \<open>An unknown word outside \<open>stem_map\<close> with a suggestion stands for the tokens of
  the suggestion.\<close>

lemma stem_suggested:
  assumes "consistent E T" and "stem_map T word = None" and "unresolved E word"
    and "voikko_suggest E word = suggested # xs"
  shows "stem E True word n T =
           (fst (tokenize_paragraph E suggested False (snd (suggest E word (snd (analyze E word T))))),
            n + 1,
            snd (tokenize_paragraph E suggested False (snd (suggest E word (snd (analyze E word T))))))"
    and "consistent E (snd (suggest E word (snd (analyze E word T))))"
    and "stem_map (snd (suggest E word (snd (analyze E word T)))) = stem_map T"
proof -
  obtain a T1 where a: "analyze E word T = (a, T1)" by (cases "analyze E word T")
  from analyze_consistent[OF assms(1), of word] a
  have a1: "a = voikko_analyze E word" "consistent E T1" "stem_map T1 = stem_map T" by simp_all
  obtain g T2 where g: "suggest E word T1 = (g, T2)" by (cases "suggest E word T1")
  then have g1: "g = voikko_suggest E word" "stem_map T2 = stem_map T1" "consistent E T2 = consistent E T1"
    using suggest_simps(1,2)[of E word T1] consistent_suggest[of E word T1] by simp_all
  show "stem E True word n T =
           (fst (tokenize_paragraph E suggested False (snd (suggest E word (snd (analyze E word T))))),
            n + 1,
            snd (tokenize_paragraph E suggested False (snd (suggest E word (snd (analyze E word T))))))"
    using assms(2,3,4) a a1 g g1
    by (simp add: stem.simps unresolved_def split: prod.splits)
  show "consistent E (snd (suggest E word (snd (analyze E word T))))"
    using a a1 by simp
  show "stem_map (snd (suggest E word (snd (analyze E word T)))) = stem_map T"
    using a a1 by simp
qed

lemma stem_False:
  assumes "consistent E T"
  shows "\<exists>T'. stem E False word n T =
           ([stem_of E word],
            (if stem_map T word = None \<and> unresolved E word then n + 1 else n), T')
         \<and> consistent E T'
         \<and> stem_map T' = (stem_map T)(word \<mapsto> stem_of E word)"
proof (cases "stem_map T word = None \<and> unresolved E word")
  case True
  with stem_unknown[OF assms, of word False n] show ?thesis
    by (auto simp: stem_of_unresolved)
next
  case False
  with stem_known[OF assms, of word False n] show ?thesis by auto
qed

lemma card_insert_filter:
  "card {v \<in> insert w (set ws). P v} =
     (if P w then 1 else 0) + card {v \<in> set ws. v \<noteq> w \<and> P v}"
proof -
  have fin: "finite {v \<in> set ws. v \<noteq> w \<and> P v}" by simp
  have "{v \<in> insert w (set ws). P v} =
          (if P w then {w} else {}) \<union> {v \<in> set ws. v \<noteq> w \<and> P v}" by auto
  then show ?thesis using fin by (auto simp: card_insert_if)
qed

lemma stem_each_False:
  assumes "consistent E T"
  shows "\<exists>T'. stem_each E False ws n T =
           (map (\<lambda>w. [stem_of E w]) ws,
            n + card {w \<in> set ws. unresolved E w \<and> stem_map T w = None}, T')
         \<and> consistent E T'
         \<and> stem_map T' = (\<lambda>k. if k \<in> set ws then Some (stem_of E k) else stem_map T k)"
  using assms
proof (induction ws arbitrary: n T)
  case Nil
  then show ?case by simp
next
  case (Cons w ws)
  let ?n1 = "if stem_map T w = None \<and> unresolved E w then n + 1 else n"
  from stem_False[OF Cons.prems, of w n] obtain T1 where
    s: "stem E False w n T = ([stem_of E w], ?n1, T1)"
    and c1: "consistent E T1"
    and m1: "stem_map T1 = (stem_map T)(w \<mapsto> stem_of E w)" by blast
  from Cons.IH[OF c1, of ?n1] obtain T2 where
    e: "stem_each E False ws ?n1 T1 =
          (map (\<lambda>w. [stem_of E w]) ws,
           ?n1 + card {v \<in> set ws. unresolved E v \<and> stem_map T1 v = None}, T2)"
    and c2: "consistent E T2"
    and m2: "stem_map T2 = (\<lambda>k. if k \<in> set ws then Some (stem_of E k) else stem_map T1 k)"
    by blast
  have set1: "{v \<in> set ws. unresolved E v \<and> stem_map T1 v = None} =
              {v \<in> set ws. v \<noteq> w \<and> (unresolved E v \<and> stem_map T v = None)}"
    using m1 by auto
  have cnt: "?n1 + card {v \<in> set ws. unresolved E v \<and> stem_map T1 v = None} =
             n + card {v \<in> set (w # ws). unresolved E v \<and> stem_map T v = None}"
    unfolding set1 list.set
    by (subst card_insert_filter[where P = "\<lambda>v. unresolved E v \<and> stem_map T v = None"]) simp
  have m: "stem_map T2 = (\<lambda>k. if k \<in> set (w # ws) then Some (stem_of E k) else stem_map T k)"
    using m1 m2 by auto
  show ?case using s e c2 m cnt by simp
qed

lemma concat_singletons: "concat (map (\<lambda>w. [f w]) ws) = map f ws"
  by (induction ws) simp_all

text \<open>\<open>tokenize_paragraph\<close> without suggestions, in a consistent state: the stems, the
  error count and the dictionary afterwards.\<close>

lemma tokenize_paragraph_False:
  assumes "consistent E T"
  shows "\<exists>T'. tokenize_paragraph E sentence False T =
           ((let r = filter (\<lambda>x. x \<noteq> []) (map (stem_of E) (paragraph_words E sentence))
             in if real (length r) * err_treshold
                   < real (card {w \<in> set (paragraph_words E sentence).
                                  unresolved E w \<and> stem_map T w = None})
                then [] else r), T')
         \<and> consistent E T'
         \<and> stem_map T' = (\<lambda>k. if k \<in> set (paragraph_words E sentence)
                                 then Some (stem_of E k) else stem_map T k)"
proof -
  from stem_each_False[OF assms, of "paragraph_words E sentence" 0] obtain T' where
    e: "stem_each E False (paragraph_words E sentence) 0 T =
          (map (\<lambda>w. [stem_of E w]) (paragraph_words E sentence),
           0 + card {w \<in> set (paragraph_words E sentence). unresolved E w \<and> stem_map T w = None}, T')"
    and c: "consistent E T'"
    and m: "stem_map T' = (\<lambda>k. if k \<in> set (paragraph_words E sentence)
                                 then Some (stem_of E k) else stem_map T k)" by blast
  have "tokenize_paragraph E sentence False T =
           ((let r = filter (\<lambda>x. x \<noteq> []) (map (stem_of E) (paragraph_words E sentence))
             in if real (length r) * err_treshold
                   < real (card {w \<in> set (paragraph_words E sentence).
                                  unresolved E w \<and> stem_map T w = None})
                then [] else r), T')"
    using e by (simp add: tokenize_paragraph.simps paragraph_words_def[symmetric] concat_singletons Let_def)
  with c m show ?thesis by blast
qed

text \<open>Every method keeps the tokenizer consistent.\<close>

lemma stem_consistent:
  assumes "consistent E T"
  shows "consistent E (snd (snd (stem E u word n T)))"
proof (cases "stem_map T word \<noteq> None \<or> \<not> unresolved E word")
  case True
  with stem_known[OF assms, of word u n] show ?thesis by auto
next
  case False
  then have f: "stem_map T word = None" "unresolved E word" by auto
  show ?thesis
  proof (cases "\<not> u \<or> voikko_suggest E word = []")
    case True
    with stem_unknown[OF assms f, of u n] show ?thesis by auto
  next
    case False
    then obtain suggested xs where u: "u" "voikko_suggest E word = suggested # xs"
      by (cases "voikko_suggest E word") auto
    let ?T2 = "snd (suggest E word (snd (analyze E word T)))"
    from tokenize_paragraph_False[OF stem_suggested(2)[OF assms f u(2)], of suggested]
    have "consistent E (snd (tokenize_paragraph E suggested False ?T2))" by auto
    with stem_suggested(1)[OF assms f u(2), of n] u(1) show ?thesis by simp
  qed
qed

lemma stem_each_consistent:
  "consistent E T \<Longrightarrow> consistent E (snd (snd (stem_each E u ws n T)))"
proof (induction ws arbitrary: n T)
  case Nil
  then show ?case by simp
next
  case (Cons w ws)
  obtain s n1 T1 where s: "stem E u w n T = (s, n1, T1)" by (cases "stem E u w n T")
  with stem_consistent[OF Cons.prems, of u w n] have "consistent E T1" by simp
  from Cons.IH[OF this, of n1] s show ?case by (auto split: prod.splits)
qed

lemma tokenize_paragraph_consistent:
  "consistent E T \<Longrightarrow> consistent E (snd (tokenize_paragraph E sentence u T))"
  using stem_each_consistent[of E T u "paragraph_words E sentence" 0]
  by (auto simp: tokenize_paragraph.simps paragraph_words_def Let_def split: prod.splits)

lemma tokenize_paragraphs_consistent:
  "consistent E T \<Longrightarrow> consistent E (snd (tokenize_paragraphs E ps T))"
proof (induction ps arbitrary: T)
  case Nil
  then show ?case by simp
next
  case (Cons p ps)
  obtain r T1 where r: "tokenize_paragraph E p True T = (r, T1)"
    by (cases "tokenize_paragraph E p True T")
  with tokenize_paragraph_consistent[OF Cons.prems, of p True] have "consistent E T1" by simp
  from Cons.IH[OF this] r show ?case by (auto split: prod.splits)
qed

lemma tokenize_consistent:
  "consistent E T \<Longrightarrow> consistent E (snd (tokenize E text T))"
  using tokenize_paragraphs_consistent[of E T "splitlines text"]
  by (auto simp: tokenize_def split: prod.splits)


text \<open>Without suggestions no call of \<open>Voikko.suggest\<close> is made.\<close>

lemma suggest_calls_append: "suggest_calls (a @ b) = suggest_calls a @ suggest_calls b"
  by (induction a rule: suggest_calls.induct) simp_all

lemma analyze_suggest_calls:
  "suggest_calls (voikko_calls (snd (analyze E word T))) = suggest_calls (voikko_calls T)"
  by (simp add: analyze_def Let_def suggest_calls_append split: option.splits)

lemma stem_False_suggest_calls:
  "suggest_calls (voikko_calls (snd (snd (stem E False word n T)))) = suggest_calls (voikko_calls T)"
proof (cases "stem_map T word")
  case (Some s)
  then show ?thesis by (simp add: stem.simps)
next
  case None
  obtain a T1 where a: "analyze E word T = (a, T1)" by (cases "analyze E word T")
  with analyze_suggest_calls[of E word T]
  have "suggest_calls (voikko_calls T1) = suggest_calls (voikko_calls T)" by simp
  with None a show ?thesis
    by (simp add: stem.simps store_stem_def split: option.splits)
qed

lemma stem_each_False_suggest_calls:
  "suggest_calls (voikko_calls (snd (snd (stem_each E False ws n T)))) = suggest_calls (voikko_calls T)"
proof (induction ws arbitrary: n T)
  case Nil
  then show ?case by simp
next
  case (Cons w ws)
  obtain s n1 T1 where s: "stem E False w n T = (s, n1, T1)" by (cases "stem E False w n T")
  with stem_False_suggest_calls[of E w n T]
  have "suggest_calls (voikko_calls T1) = suggest_calls (voikko_calls T)" by simp
  with Cons.IH[of n1 T1] s show ?case by (auto split: prod.splits)
qed

lemma tokenize_paragraph_False_suggest_calls:
  "suggest_calls (voikko_calls (snd (tokenize_paragraph E sentence False T)))
     = suggest_calls (voikko_calls T)"
  using stem_each_False_suggest_calls[of E "paragraph_words E sentence" 0 T]
  by (auto simp: tokenize_paragraph.simps paragraph_words_def Let_def split: prod.splits)

text \<open>What one stemming of a misspelled word with a suggestion does.\<close>

lemma stem_misspelled:
  assumes "consistent E T" and "stem_map T word = None" and "unresolved E word"
    and "voikko_suggest E word = suggested # xs"
  shows "consistent E (snd (snd (stem E True word n T)))"
    and "fst (snd (stem E True word n T)) = n + 1"
    and "suggest_calls (voikko_calls (snd (snd (stem E True word n T))))
           = suggest_calls (voikko_calls T) @ [word]"
    and "stem_map (snd (snd (stem E True word n T)))
           = (\<lambda>k. if k \<in> set (paragraph_words E suggested) then Some (stem_of E k)
                   else stem_map T k)"
proof -
  let ?T2 = "snd (suggest E word (snd (analyze E word T)))"
  note s = stem_suggested[OF assms]
  show "consistent E (snd (snd (stem E True word n T)))"
    by (rule stem_consistent[OF assms(1)])
  show "fst (snd (stem E True word n T)) = n + 1"
    using s(1) by simp
  have "suggest_calls (voikko_calls ?T2) = suggest_calls (voikko_calls T) @ [word]"
    using analyze_suggest_calls[of E word T] by (simp add: suggest_calls_append)
  then show "suggest_calls (voikko_calls (snd (snd (stem E True word n T))))
           = suggest_calls (voikko_calls T) @ [word]"
    using s(1) tokenize_paragraph_False_suggest_calls[of E suggested ?T2] by simp
  from tokenize_paragraph_False[OF s(2), of suggested]
  have "stem_map (snd (tokenize_paragraph E suggested False ?T2))
          = (\<lambda>k. if k \<in> set (paragraph_words E suggested) then Some (stem_of E k)
                  else stem_map ?T2 k)" by auto
  then show "stem_map (snd (snd (stem E True word n T)))
           = (\<lambda>k. if k \<in> set (paragraph_words E suggested) then Some (stem_of E k)
                   else stem_map T k)"
    using s(1) s(3) by (simp cong: if_cong)
qed

section \<open>The tokenizer: the claims\<close>

text \<open>
  C9. In a consistent tokenizer, \<open>_stem\<close> of a word that Voikko analyses returns one
  stem: the lowercase base form of the first reading whose class is not a stopword class,
  or, when every reading has a stopword class, the lowercase word itself and not a base
  form. The stem is in \<open>stem_map\<close> under the word afterwards, and no error is counted.
\<close>

theorem stem_of_analysed_word:
  assumes "consistent E T" and "voikko_analyze E word \<noteq> []"
  shows "fst (stem E u word n T) =
           [case find (\<lambda>w. \<not> stopword_class w) (voikko_analyze E word) of
              Some w \<Rightarrow> lower E (BASEFORM w)
            | None \<Rightarrow> lower E word]
       \<and> stem_map (snd (snd (stem E u word n T))) word =
           Some (case find (\<lambda>w. \<not> stopword_class w) (voikko_analyze E word) of
                   Some w \<Rightarrow> lower E (BASEFORM w)
                 | None \<Rightarrow> lower E word)
       \<and> fst (snd (stem E u word n T)) = n"
proof -
  from assms(2) have "stem_map T word \<noteq> None \<or> \<not> unresolved E word"
    by (simp add: unresolved_def)
  from stem_known[OF assms(1) this, of u n] obtain T' where
    "stem E u word n T = ([stem_of E word], n, T')"
    "stem_map T' = (stem_map T)(word \<mapsto> stem_of E word)" by blast
  then show ?thesis by (simp add: stem_of_def)
qed

theorem stem_of_analysed_word_witness:
  "consistent example_voikko new_tokenizer
   \<and> voikko_analyze example_voikko ''koirat'' \<noteq> []
   \<and> fst (stem example_voikko True ''koirat'' 0 new_tokenizer) = [''koira'']
   \<and> stem_map (snd (snd (stem example_voikko True ''koirat'' 0 new_tokenizer))) ''koirat''
       = Some ''koira''
   \<and> voikko_analyze example_voikko ''nopeasti'' \<noteq> []
   \<and> fst (stem example_voikko True ''nopeasti'' 0 new_tokenizer) = [''nopeasti'']"
proof -
  have c: "consistent example_voikko new_tokenizer" by (rule consistent_new)
  have a: "voikko_analyze example_voikko ''koirat'' \<noteq> []"
    by (simp add: example_voikko_def example_analyze_def)
  have b: "voikko_analyze example_voikko ''nopeasti'' \<noteq> []"
    by (simp add: example_voikko_def example_analyze_def)
  show ?thesis
    using c a b stem_of_analysed_word[OF c a, of True 0] stem_of_analysed_word[OF c b, of True 0]
    by (simp add: example_voikko_def example_analyze_def ascii_lower_def stopword_class_def
          FINNISH_STOPWORD_CLASSES_def)
qed


text \<open>
  C5, as the code has it. A word whose stemming does not go through a suggestion is
  in \<open>stem_map\<close> afterwards; stemming it again, in that state or in any later state
  that still holds the entry, returns the identical stem and changes nothing: no call of
  Voikko, no error counted. A word whose stemming goes through a suggestion, in a
  consistent tokenizer, is in \<open>stem_map\<close> afterwards only when it is itself one of the
  words of its suggestion. If it is not, nothing is stored under the word, and stemming
  it again counts an error and calls \<open>Voikko.suggest\<close> again. If it is, the lowercase
  word is stored under the word, and stemming it again returns the lowercase word from
  \<open>stem_map\<close> and changes nothing.
\<close>

theorem stem_again_from_stem_map:
  assumes "stem E u word n T = (r, n', T')"
  shows "(\<not> through_suggestion E u word T \<and> stem_map T'' word = stem_map T' word
            \<longrightarrow> stem E u' word m T'' = (r, m, T''))
       \<and> (consistent E T \<and> through_suggestion E u word T
           \<and> voikko_suggest E word = suggested # xs
           \<and> word \<notin> set (paragraph_words E suggested)
            \<longrightarrow> stem_map T' word = None
              \<and> suggest_calls (voikko_calls T') = suggest_calls (voikko_calls T) @ [word]
              \<and> fst (snd (stem E u word m T')) = m + 1
              \<and> suggest_calls (voikko_calls (snd (snd (stem E u word m T'))))
                  = suggest_calls (voikko_calls T) @ [word, word])
       \<and> (consistent E T \<and> through_suggestion E u word T
           \<and> voikko_suggest E word = suggested # xs
           \<and> word \<in> set (paragraph_words E suggested)
            \<longrightarrow> stem_map T' word = Some (lower E word)
              \<and> stem E u' word m T' = ([lower E word], m, T'))"
proof -
  have one: "stem E u' word m T'' = (r, m, T'')"
    if h: "\<not> through_suggestion E u word T \<and> stem_map T'' word = stem_map T' word"
  proof -
    have "\<exists>s. r = [s] \<and> stem_map T' word = Some s"
    proof (cases "stem_map T word")
      case (Some s)
      with assms show ?thesis by (auto simp: stem.simps)
    next
      case None
      obtain a T1 where a: "analyze E word T = (a, T1)" by (cases "analyze E word T")
      obtain g T2 where g: "suggest E word T1 = (g, T2)" by (cases "suggest E word T1")
      then have g1: "g = voikko_suggest E word" using suggest_simps(1)[of E word T1] by simp
      from h None a have "a \<noteq> [] \<or> \<not> u \<or> voikko_suggest E word = []"
        by (simp add: through_suggestion_def)
      with assms None a g g1 show ?thesis
        by (auto simp: stem.simps store_stem_def split: option.splits if_splits)
    qed
    then obtain s where "r = [s]" "stem_map T' word = Some s" by blast
    with h show "stem E u' word m T'' = (r, m, T'')" by (simp add: stem.simps)
  qed
  have two: "stem_map T' word = None
          \<and> suggest_calls (voikko_calls T') = suggest_calls (voikko_calls T) @ [word]
          \<and> fst (snd (stem E u word m T')) = m + 1
          \<and> suggest_calls (voikko_calls (snd (snd (stem E u word m T'))))
              = suggest_calls (voikko_calls T) @ [word, word]"
    if h: "consistent E T \<and> through_suggestion E u word T
           \<and> voikko_suggest E word = suggested # xs
           \<and> word \<notin> set (paragraph_words E suggested)"
  proof -
    from h have c: "consistent E T" and g: "voikko_suggest E word = suggested # xs"
      and out: "word \<notin> set (paragraph_words E suggested)"
      and m: "stem_map T word = None" and u: "u = True"
      and a: "fst (analyze E word T) = []"
      by (simp_all add: through_suggestion_def)
    from a analyze_consistent(1)[OF c, of word] have un: "unresolved E word"
      by (simp add: unresolved_def)
    have T': "T' = snd (snd (stem E True word n T))" using assms u by simp
    note first = stem_misspelled[OF c m un g, of n]
    have c1: "consistent E T'" unfolding T' by (rule first(1))
    have m1: "stem_map T' word = None" unfolding T' using first(4) m out by simp
    have s1: "suggest_calls (voikko_calls T') = suggest_calls (voikko_calls T) @ [word]"
      unfolding T' by (rule first(3))
    note second = stem_misspelled[OF c1 m1 un g, of m]
    show ?thesis
      using m1 s1 second(2) second(3) u by simp
  qed
  have three: "stem_map T' word = Some (lower E word)
          \<and> stem E u' word m T' = ([lower E word], m, T')"
    if h: "consistent E T \<and> through_suggestion E u word T
           \<and> voikko_suggest E word = suggested # xs
           \<and> word \<in> set (paragraph_words E suggested)"
  proof -
    from h have c: "consistent E T" and g: "voikko_suggest E word = suggested # xs"
      and within: "word \<in> set (paragraph_words E suggested)"
      and m: "stem_map T word = None" and u: "u = True"
      and a: "fst (analyze E word T) = []"
      by (simp_all add: through_suggestion_def)
    from a analyze_consistent(1)[OF c, of word] have un: "unresolved E word"
      by (simp add: unresolved_def)
    have T': "T' = snd (snd (stem E True word n T))" using assms u by simp
    note first = stem_misspelled[OF c m un g, of n]
    have m1: "stem_map T' word = Some (lower E word)"
      unfolding T' using first(4) within stem_of_unresolved[OF un] by simp
    then show ?thesis
      by (simp add: stem.simps)
  qed
  from one two three show ?thesis by blast
qed

theorem stem_again_from_stem_map_witness:
  "\<not> through_suggestion example_voikko True ''koirat'' new_tokenizer
   \<and> fst (stem example_voikko True ''koirat'' 0 new_tokenizer) = [''koira'']
   \<and> stem example_voikko True ''koirat'' 7
         (snd (snd (stem example_voikko True ''koirat'' 0 new_tokenizer)))
       = ([''koira''], 7, snd (snd (stem example_voikko True ''koirat'' 0 new_tokenizer)))
   \<and> consistent example_voikko new_tokenizer
   \<and> through_suggestion example_voikko True ''koirra'' new_tokenizer
   \<and> voikko_suggest example_voikko ''koirra'' = [''koira'', ''koiraa'']
   \<and> ''koirra'' \<notin> set (paragraph_words example_voikko ''koira'')
   \<and> stem_map (snd (snd (stem example_voikko True ''koirra'' 0 new_tokenizer))) ''koirra'' = None
   \<and> suggest_calls (voikko_calls
         (snd (snd (stem example_voikko True ''koirra'' 7
              (snd (snd (stem example_voikko True ''koirra'' 0 new_tokenizer)))))))
       = suggest_calls (voikko_calls new_tokenizer) @ [''koirra'', ''koirra'']
   \<and> through_suggestion example_voikko True ''helsinki'' new_tokenizer
   \<and> voikko_suggest example_voikko ''helsinki'' = [''Helsinki'']
   \<and> ''helsinki'' \<in> set (paragraph_words example_voikko ''Helsinki'')
   \<and> stem example_voikko True ''helsinki'' 7
         (snd (snd (stem example_voikko True ''helsinki'' 0 new_tokenizer)))
       = ([lower example_voikko ''helsinki''], 7,
          snd (snd (stem example_voikko True ''helsinki'' 0 new_tokenizer)))"
proof -
  have c: "consistent example_voikko new_tokenizer" by (rule consistent_new)
  obtain r1 n1 T1 where s1: "stem example_voikko True ''koirat'' 0 new_tokenizer = (r1, n1, T1)"
    by (cases "stem example_voikko True ''koirat'' 0 new_tokenizer")
  obtain r2 n2 T2 where s2: "stem example_voikko True ''koirra'' 0 new_tokenizer = (r2, n2, T2)"
    by (cases "stem example_voikko True ''koirra'' 0 new_tokenizer")
  obtain r3 n3 T3 where s3: "stem example_voikko True ''helsinki'' 0 new_tokenizer = (r3, n3, T3)"
    by (cases "stem example_voikko True ''helsinki'' 0 new_tokenizer")
  have t1: "\<not> through_suggestion example_voikko True ''koirat'' new_tokenizer"
    and t2: "through_suggestion example_voikko True ''koirra'' new_tokenizer"
    and t3: "through_suggestion example_voikko True ''helsinki'' new_tokenizer"
    by (simp_all add: through_suggestion_def example_voikko_def example_analyze_def
          example_suggest_def analyze_def new_tokenizer_def Let_def)
  have g2: "voikko_suggest example_voikko ''koirra'' = [''koira'', ''koiraa'']"
    and g3: "voikko_suggest example_voikko ''helsinki'' = [''Helsinki'']"
    by (simp_all add: example_voikko_def example_suggest_def)
  have p2: "''koirra'' \<notin> set (paragraph_words example_voikko ''koira'')"
    and p3: "''helsinki'' \<in> set (paragraph_words example_voikko ''Helsinki'')"
    by (simp_all add: paragraph_words_def example_voikko_def ascii_lower_def ascii_wordchar_def)
  have r: "fst (stem example_voikko True ''koirat'' 0 new_tokenizer) = [''koira'']"
    by (simp add: stem.simps example_voikko_def example_analyze_def analyze_def
          new_tokenizer_def store_stem_def ascii_lower_def FINNISH_STOPWORD_CLASSES_def Let_def)
  note th1 = stem_again_from_stem_map[OF s1, where T'' = T1 and u' = True and m = 7,
      THEN conjunct1, rule_format]
  note th2 = stem_again_from_stem_map[OF s2, where m = 7 and suggested = "''koira''"
      and xs = "[''koiraa'']", THEN conjunct2, THEN conjunct1, rule_format]
  note th3 = stem_again_from_stem_map[OF s3, where m = 7 and u' = True
      and suggested = "''Helsinki''" and xs = "[]", THEN conjunct2, THEN conjunct2, rule_format]
  have a1: "stem example_voikko True ''koirat'' 7
         (snd (snd (stem example_voikko True ''koirat'' 0 new_tokenizer)))
       = ([''koira''], 7, snd (snd (stem example_voikko True ''koirat'' 0 new_tokenizer)))"
    using th1 t1 s1 r by simp
  have a2: "stem_map (snd (snd (stem example_voikko True ''koirra'' 0 new_tokenizer))) ''koirra'' = None
     \<and> suggest_calls (voikko_calls
         (snd (snd (stem example_voikko True ''koirra'' 7
              (snd (snd (stem example_voikko True ''koirra'' 0 new_tokenizer)))))))
       = suggest_calls (voikko_calls new_tokenizer) @ [''koirra'', ''koirra'']"
    using th2 c t2 g2 p2 s2 by simp
  have a3: "stem example_voikko True ''helsinki'' 7
         (snd (snd (stem example_voikko True ''helsinki'' 0 new_tokenizer)))
       = ([lower example_voikko ''helsinki''], 7,
          snd (snd (stem example_voikko True ''helsinki'' 0 new_tokenizer)))"
    using th3 c t3 g3 p3 s3 by simp
  show ?thesis using t1 r a1 c t2 g2 p2 a2 t3 g3 p3 a3 by blast
qed

text \<open>
  C5 as it is stated fails. The misspelled \<open>koirra\<close> has a suggestion; stemming it
  calls Voikko three times, and stemming it a second time calls \<open>Voikko.suggest\<close>
  again, since nothing was stored under \<open>koirra\<close>.
\<close>

theorem second_stemming_calls_suggest_again:
  "voikko_calls (snd (snd (stem example_voikko True ''koirra'' 0 new_tokenizer)))
     = [Analyze ''koirra'', Suggest ''koirra'', Analyze ''koira'']
   \<and> voikko_calls (snd (snd (stem example_voikko True ''koirra'' 0
        (snd (snd (stem example_voikko True ''koirra'' 0 new_tokenizer))))))
     = [Analyze ''koirra'', Suggest ''koirra'', Analyze ''koira'', Suggest ''koirra'']"
  by (simp add: stem.simps tokenize_paragraph.simps example_voikko_def example_analyze_def
        example_suggest_def analyze_def suggest_def new_tokenizer_def store_stem_def
        ascii_lower_def ascii_wordchar_def FINNISH_STOPWORD_CLASSES_def err_treshold_def Let_def)

text \<open>
  C3, as the code has it. For a word outside \<open>stem_map\<close> that Voikko does not know
  and for which it has a suggestion, \<open>_stem\<close> with suggestions counts one error and
  returns what \<open>tokenize_paragraph\<close> without suggestions returns for the first
  suggestion, its rule against noise included. \<open>Voikko.suggest\<close> is called once, for
  the word and not for the suggestion. When the suggestion is a single word that Voikko
  does not know either and that is outside \<open>stem_map\<close>, the lowercase suggestion is
  stored in \<open>stem_map\<close> under its own key, but the one error is more than half of the one
  stem, so that the word gets no stem at all.
\<close>

theorem stem_retokenizes_suggestion:
  assumes "consistent E T" and "stem_map T word = None" and "unresolved E word"
    and "voikko_suggest E word = suggested # xs"
  shows "stem E True word n T =
           (fst (tokenize_paragraph E suggested False (snd (suggest E word (snd (analyze E word T))))),
            n + 1,
            snd (tokenize_paragraph E suggested False (snd (suggest E word (snd (analyze E word T))))))
       \<and> suggest_calls (voikko_calls (snd (snd (stem E True word n T))))
           = suggest_calls (voikko_calls T) @ [word]
       \<and> (paragraph_words E suggested = [v] \<and> unresolved E v \<and> stem_map T v = None
            \<longrightarrow> fst (stem E True word n T) = []
              \<and> stem_map (snd (snd (stem E True word n T))) = (stem_map T)(v \<mapsto> lower E v))"
proof -
  let ?T2 = "snd (suggest E word (snd (analyze E word T)))"
  note s = stem_suggested[OF assms]
  have calls: "suggest_calls (voikko_calls ?T2) = suggest_calls (voikko_calls T) @ [word]"
    using analyze_suggest_calls[of E word T] by (simp add: suggest_calls_append)
  have two: "suggest_calls (voikko_calls (snd (snd (stem E True word n T))))
           = suggest_calls (voikko_calls T) @ [word]"
    using s(1) calls tokenize_paragraph_False_suggest_calls[of E suggested ?T2] by simp
  have three: "fst (stem E True word n T) = []
              \<and> stem_map (snd (snd (stem E True word n T))) = (stem_map T)(v \<mapsto> lower E v)"
    if h: "paragraph_words E suggested = [v]" "unresolved E v" "stem_map T v = None"
  proof -
    from tokenize_paragraph_False[OF s(2), of suggested] obtain T' where
      t: "tokenize_paragraph E suggested False ?T2 =
           ((let r = filter (\<lambda>x. x \<noteq> []) (map (stem_of E) (paragraph_words E suggested))
             in if real (length r) * err_treshold
                   < real (card {w \<in> set (paragraph_words E suggested).
                                  unresolved E w \<and> stem_map ?T2 w = None})
                then [] else r), T')"
      and m: "stem_map T' = (\<lambda>k. if k \<in> set (paragraph_words E suggested)
                                 then Some (stem_of E k) else stem_map ?T2 k)" by blast
    have c: "{w \<in> set (paragraph_words E suggested). unresolved E w \<and> stem_map ?T2 w = None} = {v}"
      using h s(3) by auto
    have "fst (tokenize_paragraph E suggested False ?T2) = []"
      unfolding t c using h(1) by (simp add: err_treshold_def Let_def)
    moreover have "stem_map T' = (stem_map T)(v \<mapsto> lower E v)"
      using m h s(3) by (auto simp: stem_of_unresolved)
    ultimately show ?thesis using s(1) t by simp
  qed
  from s(1) two three show ?thesis by blast
qed

theorem stem_retokenizes_suggestion_witness:
  "consistent example_voikko new_tokenizer
   \<and> stem_map new_tokenizer ''tampre'' = None
   \<and> unresolved example_voikko ''tampre''
   \<and> voikko_suggest example_voikko ''tampre'' = [''Tampere'']
   \<and> paragraph_words example_voikko ''Tampere'' = [''tampere'']
   \<and> unresolved example_voikko ''tampere''
   \<and> stem_map new_tokenizer ''tampere'' = None
   \<and> suggest_calls (voikko_calls (snd (snd (stem example_voikko True ''tampre'' 0 new_tokenizer))))
       = suggest_calls (voikko_calls new_tokenizer) @ [''tampre'']
   \<and> fst (stem example_voikko True ''tampre'' 0 new_tokenizer) = []
   \<and> stem_map (snd (snd (stem example_voikko True ''tampre'' 0 new_tokenizer)))
       = (stem_map new_tokenizer)(''tampere'' \<mapsto> lower example_voikko ''tampere'')"
proof -
  have c: "consistent example_voikko new_tokenizer" by (rule consistent_new)
  have m: "stem_map new_tokenizer ''tampre'' = None" by (simp add: new_tokenizer_def)
  have u: "unresolved example_voikko ''tampre''"
    by (simp add: unresolved_def example_voikko_def example_analyze_def)
  have g: "voikko_suggest example_voikko ''tampre'' = [''Tampere'']"
    by (simp add: example_voikko_def example_suggest_def)
  have pw: "paragraph_words example_voikko ''Tampere'' = [''tampere'']"
    by (simp add: paragraph_words_def example_voikko_def ascii_lower_def ascii_wordchar_def)
  have uv: "unresolved example_voikko ''tampere''"
    by (simp add: unresolved_def example_voikko_def example_analyze_def)
  have mv: "stem_map new_tokenizer ''tampere'' = None" by (simp add: new_tokenizer_def)
  note th = stem_retokenizes_suggestion[OF c m u g, where n = 0 and v = "''tampere''"]
  from th have p2:
    "suggest_calls (voikko_calls (snd (snd (stem example_voikko True ''tampre'' 0 new_tokenizer))))
       = suggest_calls (voikko_calls new_tokenizer) @ [''tampre'']" by blast
  from th pw uv mv have p3:
    "fst (stem example_voikko True ''tampre'' 0 new_tokenizer) = []
     \<and> stem_map (snd (snd (stem example_voikko True ''tampre'' 0 new_tokenizer)))
       = (stem_map new_tokenizer)(''tampere'' \<mapsto> lower example_voikko ''tampere'')" by blast
  show ?thesis using c m u g pw uv mv p2 p3 by blast
qed

text \<open>
  C3 as it is stated fails in its last part. \<open>tampre\<close> is unknown, the suggestion
  \<open>Tampere\<close> is lowered by \<open>tokenize_paragraph\<close> and unknown as well: \<open>_stem\<close>
  returns no stem, not the lowercase suggestion.
\<close>

theorem unknown_suggestion_gives_no_stem:
  "voikko_analyze example_voikko ''tampre'' = []
   \<and> voikko_suggest example_voikko ''tampre'' = [''Tampere'']
   \<and> voikko_analyze example_voikko (lower example_voikko ''Tampere'') = []
   \<and> fst (stem example_voikko True ''tampre'' 0 new_tokenizer) = []
   \<and> fst (stem example_voikko True ''tampre'' 0 new_tokenizer) \<noteq> [lower example_voikko ''Tampere'']"
  by (simp add: stem.simps tokenize_paragraph.simps example_voikko_def example_analyze_def
        example_suggest_def analyze_def suggest_def new_tokenizer_def store_stem_def
        ascii_lower_def ascii_wordchar_def FINNISH_STOPWORD_CLASSES_def err_treshold_def Let_def)


text \<open>
  C10, as the code has it. In a consistent tokenizer, \<open>_stem\<close> with suggestions adds
  entries to \<open>stem_map\<close> only under the word itself, when Voikko knows the word or has no
  suggestion for it, and under the words of the suggestion of an unknown word. So a
  misspelled word with a suggestion gets no entry of its own, unless it is itself one of
  the words of its suggestion. If it is not, the state after the call is as before as far
  as the word goes: the next encounter misses \<open>stem_map\<close> again, counts an error again
  and calls \<open>Voikko.suggest\<close> again.
\<close>

theorem misspelled_word_not_stored:
  assumes "consistent E T"
  shows "(\<forall>k. stem_map T k = None \<and> stem_map (snd (snd (stem E True word n T))) k \<noteq> None
            \<longrightarrow> (k = word \<and> (\<not> unresolved E word \<or> voikko_suggest E word = []))
              \<or> (unresolved E word
                  \<and> (\<exists>suggested xs. voikko_suggest E word = suggested # xs
                        \<and> k \<in> set (paragraph_words E suggested))))
       \<and> (stem_map T word = None \<and> unresolved E word
           \<and> voikko_suggest E word = suggested # xs
           \<and> word \<notin> set (paragraph_words E suggested)
            \<longrightarrow> stem_map (snd (snd (stem E True word n T))) word = None
              \<and> fst (snd (stem E True word n T)) = n + 1
              \<and> suggest_calls (voikko_calls (snd (snd (stem E True word n T))))
                  = suggest_calls (voikko_calls T) @ [word]
              \<and> fst (snd (stem E True word m (snd (snd (stem E True word n T))))) = m + 1
              \<and> suggest_calls (voikko_calls
                    (snd (snd (stem E True word m (snd (snd (stem E True word n T)))))))
                  = suggest_calls (voikko_calls T) @ [word, word])"
proof (intro conjI allI impI)
  fix k
  assume k: "stem_map T k = None \<and> stem_map (snd (snd (stem E True word n T))) k \<noteq> None"
  show "(k = word \<and> (\<not> unresolved E word \<or> voikko_suggest E word = []))
          \<or> (unresolved E word
              \<and> (\<exists>suggested xs. voikko_suggest E word = suggested # xs
                    \<and> k \<in> set (paragraph_words E suggested)))"
  proof (cases "stem_map T word \<noteq> None \<or> \<not> unresolved E word")
    case True
    from stem_known[OF assms True, of True n] obtain T' where
      "stem E True word n T = ([stem_of E word], n, T')"
      "stem_map T' = (stem_map T)(word \<mapsto> stem_of E word)" by blast
    with k True show ?thesis by (auto split: if_splits)
  next
    case False
    then have f: "stem_map T word = None" "unresolved E word" by auto
    show ?thesis
    proof (cases "voikko_suggest E word")
      case Nil
      with stem_unknown[OF assms f, of True n] obtain T' where
        "stem E True word n T = ([lower E word], n + 1, T')"
        "stem_map T' = (stem_map T)(word \<mapsto> stem_of E word)" by blast
      with k Nil show ?thesis by (auto split: if_splits)
    next
      case (Cons suggested xs)
      from stem_misspelled(4)[OF assms f Cons, of n] k
      have "k \<in> set (paragraph_words E suggested)" by (auto split: if_splits)
      with f Cons show ?thesis by blast
    qed
  qed
next
  assume h: "stem_map T word = None \<and> unresolved E word
           \<and> voikko_suggest E word = suggested # xs
           \<and> word \<notin> set (paragraph_words E suggested)"
  then have f: "stem_map T word = None" "unresolved E word"
    "voikko_suggest E word = suggested # xs" "word \<notin> set (paragraph_words E suggested)"
    by simp_all
  let ?T1 = "snd (snd (stem E True word n T))"
  note one = stem_misspelled[OF assms f(1,2,3), of n]
  show m1: "stem_map ?T1 word = None" using one(4) f(1,4) by simp
  show "fst (snd (stem E True word n T)) = n + 1" by (rule one(2))
  show "suggest_calls (voikko_calls ?T1) = suggest_calls (voikko_calls T) @ [word]"
    by (rule one(3))
  note two = stem_misspelled[OF one(1) m1 f(2,3), of m]
  show "fst (snd (stem E True word m ?T1)) = m + 1" by (rule two(2))
  show "suggest_calls (voikko_calls (snd (snd (stem E True word m ?T1))))
          = suggest_calls (voikko_calls T) @ [word, word]"
    using two(3) one(3) by simp
qed

theorem misspelled_word_not_stored_witness:
  "consistent example_voikko new_tokenizer
   \<and> stem_map new_tokenizer ''koirra'' = None
   \<and> unresolved example_voikko ''koirra''
   \<and> voikko_suggest example_voikko ''koirra'' = [''koira'', ''koiraa'']
   \<and> ''koirra'' \<notin> set (paragraph_words example_voikko ''koira'')
   \<and> stem_map (snd (snd (stem example_voikko True ''koirra'' 0 new_tokenizer))) ''koirra'' = None
   \<and> fst (snd (stem example_voikko True ''koirra'' 0 new_tokenizer)) = 0 + 1
   \<and> fst (snd (stem example_voikko True ''koirra'' 1
              (snd (snd (stem example_voikko True ''koirra'' 0 new_tokenizer))))) = 1 + 1
   \<and> suggest_calls (voikko_calls
         (snd (snd (stem example_voikko True ''koirra'' 1
              (snd (snd (stem example_voikko True ''koirra'' 0 new_tokenizer)))))))
       = suggest_calls (voikko_calls new_tokenizer) @ [''koirra'', ''koirra'']"
proof -
  have c: "consistent example_voikko new_tokenizer" by (rule consistent_new)
  have m: "stem_map new_tokenizer ''koirra'' = None" by (simp add: new_tokenizer_def)
  have u: "unresolved example_voikko ''koirra''"
    by (simp add: unresolved_def example_voikko_def example_analyze_def)
  have g: "voikko_suggest example_voikko ''koirra'' = [''koira'', ''koiraa'']"
    by (simp add: example_voikko_def example_suggest_def)
  have pw: "''koirra'' \<notin> set (paragraph_words example_voikko ''koira'')"
    by (simp add: paragraph_words_def example_voikko_def ascii_lower_def ascii_wordchar_def)
  note th = misspelled_word_not_stored[OF c, where word = "''koirra''" and n = 0 and m = 1
      and suggested = "''koira''" and xs = "[''koiraa'']"]
  from th m u g pw have p:
    "stem_map (snd (snd (stem example_voikko True ''koirra'' 0 new_tokenizer))) ''koirra'' = None
     \<and> fst (snd (stem example_voikko True ''koirra'' 0 new_tokenizer)) = 0 + 1
     \<and> fst (snd (stem example_voikko True ''koirra'' 1
              (snd (snd (stem example_voikko True ''koirra'' 0 new_tokenizer))))) = 1 + 1
     \<and> suggest_calls (voikko_calls
         (snd (snd (stem example_voikko True ''koirra'' 1
              (snd (snd (stem example_voikko True ''koirra'' 0 new_tokenizer)))))))
       = suggest_calls (voikko_calls new_tokenizer) @ [''koirra'', ''koirra'']" by blast
  show ?thesis using c m u g pw p by blast
qed

text \<open>
  C10 as it is stated fails. \<open>helsinki\<close> is unknown and has the suggestion
  \<open>Helsinki\<close>, whose only word, once lowered, is \<open>helsinki\<close> itself: stemming the
  word stores it under its own key, and the next encounter is answered from
  \<open>stem_map\<close>, with no error counted and no call of Voikko.
\<close>

theorem misspelled_word_stored_by_its_suggestion:
  "voikko_analyze example_voikko ''helsinki'' = []
   \<and> voikko_suggest example_voikko ''helsinki'' = [''Helsinki'']
   \<and> stem_map new_tokenizer ''helsinki'' = None
   \<and> stem_map (snd (snd (stem example_voikko True ''helsinki'' 0 new_tokenizer))) ''helsinki''
       = Some ''helsinki''
   \<and> stem example_voikko True ''helsinki'' 0
        (snd (snd (stem example_voikko True ''helsinki'' 0 new_tokenizer)))
       = ([''helsinki''], 0, snd (snd (stem example_voikko True ''helsinki'' 0 new_tokenizer)))"
  by (simp add: stem.simps tokenize_paragraph.simps example_voikko_def example_analyze_def
        example_suggest_def analyze_def suggest_def new_tokenizer_def store_stem_def
        ascii_lower_def ascii_wordchar_def FINNISH_STOPWORD_CLASSES_def err_treshold_def Let_def)


text \<open>
  The loop over the words of a paragraph when no unknown word is answered from
  \<open>stem_map\<close>: every word gives its stems and every unknown word counts.
\<close>

lemma stem_uncached_known:
  assumes "consistent E T" and "\<not> unresolved E w"
    and "\<forall>v \<in> set ws. unresolved E v \<longrightarrow> stem_map T v = None"
  shows "\<exists>T1. stem E True w n T = (word_stems E w, n, T1)
            \<and> consistent E T1
            \<and> (\<forall>v \<in> set ws. unresolved E v \<longrightarrow> stem_map T1 v = None)"
proof -
  from stem_known[OF assms(1), of w True n] assms(2) obtain T1 where
    t: "stem E True w n T = ([stem_of E w], n, T1)" "consistent E T1"
       "stem_map T1 = (stem_map T)(w \<mapsto> stem_of E w)" by blast
  have "\<forall>v \<in> set ws. unresolved E v \<longrightarrow> stem_map T1 v = None"
  proof (intro ballI impI)
    fix v assume v: "v \<in> set ws" "unresolved E v"
    with assms(2) have "v \<noteq> w" by auto
    with t(3) assms(3) v show "stem_map T1 v = None" by simp
  qed
  moreover have "word_stems E w = [stem_of E w]" using assms(2) by (simp add: word_stems_def)
  ultimately show ?thesis using t(1,2) by simp
qed

lemma stem_uncached_unknown:
  assumes "consistent E T" and "unresolved E w" and "stem_map T w = None"
    and "voikko_suggest E w = []"
    and "\<forall>v \<in> set ws. unresolved E v \<longrightarrow> stem_map T v = None"
    and "w \<notin> set (filter (\<lambda>w. unresolved E w \<and> voikko_suggest E w = []) ws)"
  shows "\<exists>T1. stem E True w n T = (word_stems E w, n + 1, T1)
            \<and> consistent E T1
            \<and> (\<forall>v \<in> set ws. unresolved E v \<longrightarrow> stem_map T1 v = None)"
proof -
  from stem_unknown[OF assms(1,3,2), of True n] assms(4) obtain T1 where
    t: "stem E True w n T = ([lower E w], n + 1, T1)" "consistent E T1"
       "stem_map T1 = (stem_map T)(w \<mapsto> stem_of E w)" by blast
  have "\<forall>v \<in> set ws. unresolved E v \<longrightarrow> stem_map T1 v = None"
  proof (intro ballI impI)
    fix v assume v: "v \<in> set ws" "unresolved E v"
    with assms(4,6) have "v \<noteq> w" by auto
    with t(3) assms(5) v show "stem_map T1 v = None" by simp
  qed
  moreover have "word_stems E w = [lower E w]" using assms(2,4) by (simp add: word_stems_def)
  ultimately show ?thesis using t(1,2) by simp
qed

lemma stem_uncached_suggested:
  assumes "consistent E T" and "unresolved E w" and "stem_map T w = None"
    and "voikko_suggest E w = suggested # xs"
    and "\<forall>v \<in> set ws. unresolved E v \<longrightarrow> stem_map T v = None"
    and "\<forall>v \<in> set (paragraph_words E suggested). \<not> unresolved E v"
  shows "\<exists>T1. stem E True w n T = (word_stems E w, n + 1, T1)
            \<and> consistent E T1
            \<and> (\<forall>v \<in> set ws. unresolved E v \<longrightarrow> stem_map T1 v = None)"
proof -
  let ?T2 = "snd (suggest E w (snd (analyze E w T)))"
  let ?r = "filter (\<lambda>x. x \<noteq> []) (map (stem_of E) (paragraph_words E suggested))"
  note s = stem_suggested[OF assms(1,3,2,4)]
  have none: "{v \<in> set (paragraph_words E suggested).
                 unresolved E v \<and> stem_map ?T2 v = None} = {}" using assms(6) by auto
  from tokenize_paragraph_False[OF s(2), of suggested] obtain T1 where
    t: "tokenize_paragraph E suggested False ?T2 =
         ((let r = ?r
           in if real (length r) * err_treshold
                 < real (card {v \<in> set (paragraph_words E suggested).
                                unresolved E v \<and> stem_map ?T2 v = None})
              then [] else r), T1)"
    and c: "consistent E T1"
    and m: "stem_map T1 = (\<lambda>k. if k \<in> set (paragraph_words E suggested)
                             then Some (stem_of E k) else stem_map ?T2 k)" by blast
  have t': "tokenize_paragraph E suggested False ?T2 = (?r, T1)"
    unfolding t none by (simp add: err_treshold_def Let_def)
  have w: "word_stems E w = ?r" using assms(2,4) by (simp add: word_stems_def)
  have st: "stem E True w n T = (word_stems E w, n + 1, T1)"
    unfolding w s(1) t' by simp
  have "\<forall>v \<in> set ws. unresolved E v \<longrightarrow> stem_map T1 v = None"
  proof (intro ballI impI)
    fix v assume v: "v \<in> set ws" "unresolved E v"
    with assms(6) have "v \<notin> set (paragraph_words E suggested)" by auto
    then have "stem_map T1 v = stem_map ?T2 v" unfolding m by simp
    with s(3) assms(5) v show "stem_map T1 v = None" by simp
  qed
  with st c show ?thesis by blast
qed

lemma stem_each_uncached:
  assumes "consistent E T"
    and "\<forall>w \<in> set ws. unresolved E w \<longrightarrow> stem_map T w = None"
    and "distinct (filter (\<lambda>w. unresolved E w \<and> voikko_suggest E w = []) ws)"
    and "\<forall>w \<in> set ws. unresolved E w \<longrightarrow>
           (\<forall>suggested xs. voikko_suggest E w = suggested # xs \<longrightarrow>
              (\<forall>v \<in> set (paragraph_words E suggested). \<not> unresolved E v))"
  shows "fst (stem_each E True ws n T) = map (word_stems E) ws
       \<and> fst (snd (stem_each E True ws n T)) = n + length (filter (unresolved E) ws)"
  using assms
proof (induction ws arbitrary: n T)
  case Nil
  then show ?case by simp
next
  case (Cons w ws)
  note prems = Cons.prems
  have rest1: "\<forall>v \<in> set ws. unresolved E v \<longrightarrow> stem_map T v = None"
  proof (intro ballI impI)
    fix v assume "v \<in> set ws" "unresolved E v"
    moreover from this have "v \<in> set (w # ws)" by simp
    ultimately show "stem_map T v = None" using prems(2) by blast
  qed
  have rest3: "\<forall>w \<in> set ws. unresolved E w \<longrightarrow>
           (\<forall>suggested xs. voikko_suggest E w = suggested # xs \<longrightarrow>
              (\<forall>v \<in> set (paragraph_words E suggested). \<not> unresolved E v))"
  proof (intro ballI)
    fix v assume "v \<in> set ws"
    then have "v \<in> set (w # ws)" by simp
    with prems(4) show "unresolved E v \<longrightarrow>
           (\<forall>suggested xs. voikko_suggest E v = suggested # xs \<longrightarrow>
              (\<forall>v \<in> set (paragraph_words E suggested). \<not> unresolved E v))" by blast
  qed
  have rest2: "distinct (filter (\<lambda>w. unresolved E w \<and> voikko_suggest E w = []) ws)"
    using prems(3) by (cases "unresolved E w \<and> voikko_suggest E w = []") simp_all
  let ?n1 = "if unresolved E w then n + 1 else n"
  have step: "\<exists>T1. stem E True w n T = (word_stems E w, ?n1, T1)
               \<and> consistent E T1
               \<and> (\<forall>v \<in> set ws. unresolved E v \<longrightarrow> stem_map T1 v = None)"
  proof (cases "unresolved E w")
    case False
    with stem_uncached_known[OF prems(1) False rest1, of n] show ?thesis by simp
  next
    case True
    have "w \<in> set (w # ws)" by simp
    with prems(2) True have miss: "stem_map T w = None" by blast
    show ?thesis
    proof (cases "voikko_suggest E w")
      case Nil
      have "w \<notin> set (filter (\<lambda>w. unresolved E w \<and> voikko_suggest E w = []) ws)"
        using prems(3) True Nil by simp
      from stem_uncached_unknown[OF prems(1) True miss Nil rest1 this, of n] True
      show ?thesis by simp
    next
      case (Cons suggested xs)
      have "w \<in> set (w # ws)" by simp
      with prems(4) True Cons
      have known: "\<forall>v \<in> set (paragraph_words E suggested). \<not> unresolved E v" by blast
      from stem_uncached_suggested[OF prems(1) True miss Cons rest1 known, of n] True
      show ?thesis by simp
    qed
  qed
  then obtain T1 where
    t1: "stem E True w n T = (word_stems E w, ?n1, T1)"
    and c1: "consistent E T1"
    and m1: "\<forall>v \<in> set ws. unresolved E v \<longrightarrow> stem_map T1 v = None" by blast
  obtain rs e T2 where se: "stem_each E True ws ?n1 T1 = (rs, e, T2)"
    by (cases "stem_each E True ws ?n1 T1") auto
  from Cons.IH[OF c1 m1 rest2 rest3, of ?n1] se
  have "rs = map (word_stems E) ws" "e = ?n1 + length (filter (unresolved E) ws)" by simp_all
  with t1 se show ?case by simp
qed

text \<open>
  C2, as the code has it. Take a consistent tokenizer and a paragraph in which no unknown
  word is answered from \<open>stem_map\<close>: none of its unknown words is in \<open>stem_map\<close>,
  an unknown word without suggestion occurs once, and the suggestions of its unknown
  words consist of words that Voikko knows. Then \<open>tokenize_paragraph\<close> returns the
  non-empty stems of the paragraph, unless the number of unknown words is strictly more
  than 0.5 times the number of these stems, in which case it returns the empty list. At
  exactly one half the stems are returned.
\<close>

theorem tokenize_paragraph_noise_rule:
  assumes "consistent E T"
    and "\<forall>w \<in> set (paragraph_words E sentence). unresolved E w \<longrightarrow> stem_map T w = None"
    and "distinct (filter (\<lambda>w. unresolved E w \<and> voikko_suggest E w = [])
                     (paragraph_words E sentence))"
    and "\<forall>w \<in> set (paragraph_words E sentence). unresolved E w \<longrightarrow>
           (\<forall>suggested xs. voikko_suggest E w = suggested # xs \<longrightarrow>
              (\<forall>v \<in> set (paragraph_words E suggested). \<not> unresolved E v))"
  shows "fst (tokenize_paragraph E sentence True T) =
           (let stems = filter (\<lambda>x. x \<noteq> [])
                          (concat (map (word_stems E) (paragraph_words E sentence)))
            in if 0.5 * real (length stems)
                    < real (length (filter (unresolved E) (paragraph_words E sentence)))
               then [] else stems)"
proof -
  obtain rs e T' where se: "stem_each E True (paragraph_words E sentence) 0 T = (rs, e, T')"
    by (cases "stem_each E True (paragraph_words E sentence) 0 T") auto
  from stem_each_uncached[OF assms, of 0] se
  have rs: "rs = map (word_stems E) (paragraph_words E sentence)"
    and e: "e = length (filter (unresolved E) (paragraph_words E sentence))" by simp_all
  have "fst (tokenize_paragraph E sentence True T) =
          (let r = filter (\<lambda>x. x \<noteq> []) (concat rs)
           in if real (length r) * err_treshold < real e then [] else r)"
    using se by (simp add: tokenize_paragraph.simps paragraph_words_def[symmetric] Let_def)
  also have "\<dots> =
          (let stems = filter (\<lambda>x. x \<noteq> []) (concat rs)
           in if 0.5 * real (length stems) < real e then [] else stems)"
    by (simp add: err_treshold_def Let_def mult.commute)
  finally show ?thesis unfolding rs e .
qed


theorem tokenize_paragraph_noise_rule_witness:
  "consistent example_voikko new_tokenizer
   \<and> paragraph_words example_voikko ''Koirat zzz'' = [''koirat'', ''zzz'']
   \<and> paragraph_words example_voikko ''Koirat zzz yyy'' = [''koirat'', ''zzz'', ''yyy'']
   \<and> \<not> unresolved example_voikko ''koirat''
   \<and> unresolved example_voikko ''zzz'' \<and> unresolved example_voikko ''yyy''
   \<and> voikko_suggest example_voikko ''zzz'' = [] \<and> voikko_suggest example_voikko ''yyy'' = []
   \<and> stem_map new_tokenizer ''zzz'' = None \<and> stem_map new_tokenizer ''yyy'' = None
   \<and> fst (tokenize_paragraph example_voikko ''Koirat zzz'' True new_tokenizer)
       = [''koira'', ''zzz'']
   \<and> fst (tokenize_paragraph example_voikko ''Koirat zzz yyy'' True new_tokenizer) = []"
proof -
  have c: "consistent example_voikko new_tokenizer" by (rule consistent_new)
  have pw1: "paragraph_words example_voikko ''Koirat zzz'' = [''koirat'', ''zzz'']"
    by (simp add: paragraph_words_def example_voikko_def ascii_lower_def ascii_wordchar_def)
  have pw2: "paragraph_words example_voikko ''Koirat zzz yyy'' = [''koirat'', ''zzz'', ''yyy'']"
    by (simp add: paragraph_words_def example_voikko_def ascii_lower_def ascii_wordchar_def)
  have u: "\<not> unresolved example_voikko ''koirat''"
    "unresolved example_voikko ''zzz''" "unresolved example_voikko ''yyy''"
    by (simp_all add: unresolved_def example_voikko_def example_analyze_def)
  have g: "voikko_suggest example_voikko ''zzz'' = []" "voikko_suggest example_voikko ''yyy'' = []"
    by (simp_all add: example_voikko_def example_suggest_def)
  have m: "stem_map new_tokenizer ''zzz'' = None" "stem_map new_tokenizer ''yyy'' = None"
    by (simp_all add: new_tokenizer_def)
  have s: "stem_of example_voikko ''koirat'' = ''koira''"
    by (simp add: stem_of_def example_voikko_def example_analyze_def stopword_class_def
          FINNISH_STOPWORD_CLASSES_def ascii_lower_def)
  have l: "lower example_voikko ''zzz'' = ''zzz''" "lower example_voikko ''yyy'' = ''yyy''"
    by (simp_all add: example_voikko_def ascii_lower_def)
  have a1: "\<forall>w \<in> set (paragraph_words example_voikko ''Koirat zzz'').
              unresolved example_voikko w \<longrightarrow> stem_map new_tokenizer w = None"
    by (simp add: new_tokenizer_def)
  have a2: "distinct (filter (\<lambda>w. unresolved example_voikko w \<and> voikko_suggest example_voikko w = [])
                       (paragraph_words example_voikko ''Koirat zzz''))"
    unfolding pw1 using u g by simp
  have a3: "\<forall>w \<in> set (paragraph_words example_voikko ''Koirat zzz''). unresolved example_voikko w \<longrightarrow>
           (\<forall>suggested xs. voikko_suggest example_voikko w = suggested # xs \<longrightarrow>
              (\<forall>v \<in> set (paragraph_words example_voikko suggested). \<not> unresolved example_voikko v))"
    unfolding pw1 using u g by simp
  have b1: "\<forall>w \<in> set (paragraph_words example_voikko ''Koirat zzz yyy'').
              unresolved example_voikko w \<longrightarrow> stem_map new_tokenizer w = None"
    by (simp add: new_tokenizer_def)
  have b2: "distinct (filter (\<lambda>w. unresolved example_voikko w \<and> voikko_suggest example_voikko w = [])
                       (paragraph_words example_voikko ''Koirat zzz yyy''))"
    unfolding pw2 using u g by simp
  have b3: "\<forall>w \<in> set (paragraph_words example_voikko ''Koirat zzz yyy''). unresolved example_voikko w \<longrightarrow>
           (\<forall>suggested xs. voikko_suggest example_voikko w = suggested # xs \<longrightarrow>
              (\<forall>v \<in> set (paragraph_words example_voikko suggested). \<not> unresolved example_voikko v))"
    unfolding pw2 using u g by simp
  have r1: "fst (tokenize_paragraph example_voikko ''Koirat zzz'' True new_tokenizer)
       = [''koira'', ''zzz'']"
    unfolding tokenize_paragraph_noise_rule[OF c a1 a2 a3] pw1
    using u g s l by (simp add: word_stems_def)
  have r2: "fst (tokenize_paragraph example_voikko ''Koirat zzz yyy'' True new_tokenizer) = []"
    unfolding tokenize_paragraph_noise_rule[OF c b1 b2 b3] pw2
    using u g s l by (simp add: word_stems_def)
  show ?thesis using c pw1 pw2 u g m r1 r2 by blast
qed

text \<open>
  C2 as it is stated fails in both directions. A paragraph without words gives the empty
  list although it has no unknown word. And in \<open>tampre tampere koirat\<close> two of the
  three words are unknown, which is more than half of the two stems, yet the stems are
  returned: stemming \<open>tampre\<close> through its suggestion put \<open>tampere\<close> into
  \<open>stem_map\<close>, and a word found there is not counted.
\<close>

theorem noise_rule_counts_only_stem_map_misses:
  "paragraph_words example_voikko [] = []
   \<and> fst (tokenize_paragraph example_voikko [] True new_tokenizer) = []
   \<and> paragraph_words example_voikko ''tampre tampere koirat'' = [''tampre'', ''tampere'', ''koirat'']
   \<and> voikko_analyze example_voikko ''tampre'' = []
   \<and> voikko_analyze example_voikko ''tampere'' = []
   \<and> fst (tokenize_paragraph example_voikko ''tampre tampere koirat'' True new_tokenizer)
       = [''tampere'', ''koira'']"
  by (simp add: paragraph_words_def stem.simps tokenize_paragraph.simps example_voikko_def
        example_analyze_def example_suggest_def analyze_def suggest_def new_tokenizer_def
        store_stem_def ascii_lower_def ascii_wordchar_def FINNISH_STOPWORD_CLASSES_def
        err_treshold_def Let_def)

text \<open>
  C4. The result of \<open>tokenize_paragraph\<close> depends on what earlier calls left in
  \<open>stem_map\<close>. Voikko knows neither \<open>hello\<close> nor \<open>world\<close> and suggests nothing:
  the first call on a new tokenizer counts two errors for two stems and returns the empty
  list; it also stores both words as their own stems, so that the second call on the same
  paragraph finds them in \<open>stem_map\<close>, counts no error and returns both.
\<close>

theorem tokenize_paragraph_twice:
  "fst (tokenize_paragraph example_voikko ''Hello world'' True new_tokenizer) = []
   \<and> fst (tokenize_paragraph example_voikko ''Hello world'' True
            (snd (tokenize_paragraph example_voikko ''Hello world'' True new_tokenizer)))
       = [''hello'', ''world'']"
  by (simp add: stem.simps tokenize_paragraph.simps example_voikko_def
        example_analyze_def example_suggest_def analyze_def suggest_def new_tokenizer_def
        store_stem_def ascii_lower_def ascii_wordchar_def FINNISH_STOPWORD_CLASSES_def
        err_treshold_def Let_def)


section \<open>TextTopics: topic_words\<close>

lemma map_of_dict_set: "map_of (dict_set r k v) = (map_of r)(k \<mapsto> v)"
  by (induction r) (auto simp: fun_eq_iff)

lemma topic_words_loop_values:
  assumes "distinct (vector_words M)" and "\<forall>wid \<in> set wids. wid < length (vector_words M)"
  shows "\<exists>r'. topic_words_loop M topic wids r = Inr r'
            \<and> (\<forall>wid < length (vector_words M).
                   map_of r' (vector_words M ! wid) =
                     (if wid \<in> set wids
                      then Some (np_divide (lda_components M ! topic ! wid)
                                   (sum_list (map (\<lambda>x. x ! wid) (lda_components M))))
                      else map_of r (vector_words M ! wid)))"
  using assms(2)
proof (induction wids arbitrary: r)
  case Nil
  then show ?case by simp
next
  case (Cons w wids)
  let ?v = "\<lambda>wid. np_divide (lda_components M ! topic ! wid)
                      (sum_list (map (\<lambda>x. x ! wid) (lda_components M)))"
  let ?r1 = "dict_set r (vector_words M ! w) (?v w)"
  from Cons.prems have w: "w < length (vector_words M)"
    and rest: "\<forall>wid \<in> set wids. wid < length (vector_words M)" by simp_all
  from Cons.IH[OF rest, of ?r1] obtain r' where
    l: "topic_words_loop M topic wids ?r1 = Inr r'"
    and v: "\<forall>wid < length (vector_words M).
              map_of r' (vector_words M ! wid) =
                (if wid \<in> set wids then Some (?v wid) else map_of ?r1 (vector_words M ! wid))"
    by blast
  have "\<forall>wid < length (vector_words M).
          map_of r' (vector_words M ! wid) =
            (if wid \<in> set (w # wids) then Some (?v wid) else map_of r (vector_words M ! wid))"
  proof (intro allI impI)
    fix wid assume b: "wid < length (vector_words M)"
    have "vector_words M ! wid = vector_words M ! w \<longleftrightarrow> wid = w"
      using assms(1) b w by (simp add: nth_eq_iff_index_eq)
    with v b show "map_of r' (vector_words M ! wid) =
            (if wid \<in> set (w # wids) then Some (?v wid) else map_of r (vector_words M ! wid))"
      by (auto simp: map_of_dict_set)
  qed
  with l w show ?case by simp
qed

lemma set_argsort: "set (argsort ties xs) = {0..<length xs}"
  by (simp add: argsort_def)

lemma sum_list_column:
  "sum_list (map (\<lambda>x. x ! wid) rows) = (\<Sum>t < length rows. rows ! t ! wid)"
proof -
  have "sum_list (map (\<lambda>x. x ! wid) rows)
          = (\<Sum>t = 0..<length (map (\<lambda>x. x ! wid) rows). map (\<lambda>x. x ! wid) rows ! t)"
    by (rule sum_list_sum_nth)
  also have "\<dots> = (\<Sum>t < length rows. rows ! t ! wid)"
    by (simp add: atLeast0LessThan)
  finally show ?thesis .
qed

lemma ranking_value:
  assumes "topic < length (lda_components M)" and "wid < length (vector_words M)"
    and "distinct (vector_words M)"
    and "\<forall>row \<in> set (lda_components M). length row = length (vector_words M)"
    and "(\<Sum>t < length (lda_components M). lda_components M ! t ! wid) \<noteq> 0"
  shows "ranking M topic (vector_words M ! wid) =
           Some (lda_components M ! topic ! wid
                   / (\<Sum>t < length (lda_components M). lda_components M ! t ! wid))"
proof -
  have len: "length (lda_components M ! topic) = length (vector_words M)"
    using assms(1,4) by simp
  then have in_range: "\<forall>w \<in> set (rev (argsort (float_ties M) (lda_components M ! topic))). w < length (vector_words M)"
    by (simp add: set_argsort)
  from topic_words_loop_values[OF assms(3) in_range, of topic "[]"] obtain r' where
    l: "topic_words_loop M topic (rev (argsort (float_ties M) (lda_components M ! topic))) [] = Inr r'"
    and v: "\<forall>wid < length (vector_words M).
              map_of r' (vector_words M ! wid) =
                (if wid \<in> set (rev (argsort (float_ties M) (lda_components M ! topic)))
                 then Some (np_divide (lda_components M ! topic ! wid)
                              (sum_list (map (\<lambda>x. x ! wid) (lda_components M))))
                 else map_of [] (vector_words M ! wid))" by blast
  have "wid \<in> set (rev (argsort (float_ties M) (lda_components M ! topic)))"
    using assms(2) len by (simp add: set_argsort)
  with v assms(2) have "map_of r' (vector_words M ! wid) =
      Some (np_divide (lda_components M ! topic ! wid)
              (sum_list (map (\<lambda>x. x ! wid) (lda_components M))))" by simp
  with l assms(1,5) show ?thesis
    by (simp add: ranking_def topic_words_def np_divide_def sum_list_column)
qed

text \<open>
  C7. For a fitted model (distinct vocabulary, a rectangular matrix of weights that are
  not negative) and a word whose weights over the topics do not sum to zero,
  \<open>topic_words\<close> of a topic assigns the word the weight of the topic divided by the
  sum of the weights of all topics. The value lies between 0 and 1, and the values of
  all topics for the word sum to 1.
\<close>

theorem topic_words_share:
  assumes "topic < length (lda_components M)" and "wid < length (vector_words M)"
    and "distinct (vector_words M)"
    and "\<forall>row \<in> set (lda_components M).
           length row = length (vector_words M) \<and> (\<forall>x \<in> set row. 0 \<le> x)"
    and "(\<Sum>t < length (lda_components M). lda_components M ! t ! wid) \<noteq> 0"
  shows "ranking M topic (vector_words M ! wid) =
           Some (lda_components M ! topic ! wid
                   / (\<Sum>t < length (lda_components M). lda_components M ! t ! wid))
       \<and> 0 \<le> the (ranking M topic (vector_words M ! wid))
       \<and> the (ranking M topic (vector_words M ! wid)) \<le> 1
       \<and> (\<Sum>t < length (lda_components M). the (ranking M t (vector_words M ! wid))) = 1"
proof -
  let ?c = "\<lambda>t. lda_components M ! t ! wid"
  let ?n = "length (lda_components M)"
  have rect: "\<forall>row \<in> set (lda_components M). length row = length (vector_words M)"
    using assms(4) by blast
  have val: "ranking M t (vector_words M ! wid) = Some (?c t / (\<Sum>t < ?n. ?c t))"
    if "t < ?n" for t
    by (rule ranking_value[OF that assms(2,3) rect assms(5)])
  have nonneg: "0 \<le> ?c t" if "t < ?n" for t
  proof -
    from that have row: "lda_components M ! t \<in> set (lda_components M)" by simp
    with assms(4) have "length (lda_components M ! t) = length (vector_words M)" by blast
    with assms(2) have "lda_components M ! t ! wid \<in> set (lda_components M ! t)" by simp
    with assms(4) row show ?thesis by blast
  qed
  have sum_nonneg: "0 \<le> (\<Sum>t < ?n. ?c t)" by (rule sum_nonneg) (simp add: nonneg)
  with assms(5) have sum_pos: "0 < (\<Sum>t < ?n. ?c t)" by simp
  have le: "?c topic \<le> (\<Sum>t < ?n. ?c t)"
    by (rule member_le_sum) (use assms(1) nonneg in auto)
  have "(\<Sum>t < ?n. the (ranking M t (vector_words M ! wid)))
          = (\<Sum>t < ?n. ?c t / (\<Sum>t < ?n. ?c t))"
    by (rule sum.cong) (simp_all add: val)
  also have "\<dots> = (\<Sum>t < ?n. ?c t) / (\<Sum>t < ?n. ?c t)"
    by (rule sum_divide_distrib[symmetric])
  also have "\<dots> = 1" using assms(5) by simp
  finally have total: "(\<Sum>t < ?n. the (ranking M t (vector_words M ! wid))) = 1" .
  from val[OF assms(1)] nonneg[OF assms(1)] sum_pos le total show ?thesis
    by (simp add: divide_le_eq_1)
qed

theorem topic_words_share_witness:
  "(0 :: nat) < length (lda_components example_model)
   \<and> (1 :: nat) < length (vector_words example_model)
   \<and> distinct (vector_words example_model)
   \<and> vector_words example_model = [''juosta'', ''kissa'', ''koira'']
   \<and> lda_components example_model = [[2, 6, 1], [2, 2, 3]]
   \<and> ranking example_model 0 ''kissa'' = Some (3 / 4)
   \<and> (0 :: real) \<le> 3 / 4 \<and> (3 / 4 :: real) \<le> 1
   \<and> the (ranking example_model 0 ''kissa'') + the (ranking example_model 1 ''kissa'') = 1"
proof -
  have v: "vector_words example_model = [''juosta'', ''kissa'', ''koira'']"
    and l: "lda_components example_model = [[2, 6, 1], [2, 2, 3]]"
    by (simp_all add: example_model_def)
  have h1: "(0 :: nat) < length (lda_components example_model)" by (simp add: l)
  have h2: "(1 :: nat) < length (vector_words example_model)" by (simp add: v)
  have h3: "distinct (vector_words example_model)" by (simp add: v)
  have h4: "\<forall>row \<in> set (lda_components example_model).
              length row = length (vector_words example_model) \<and> (\<forall>x \<in> set row. 0 \<le> x)"
    by (simp add: v l)
  have two: "{..<2 :: nat} = {0, 1}" by auto
  have h5: "(\<Sum>t < length (lda_components example_model). lda_components example_model ! t ! 1) \<noteq> 0"
    by (simp add: l two)
  from topic_words_share[OF h1 h2 h3 h4 h5]
  have "ranking example_model 0 ''kissa'' = Some (3 / 4)
        \<and> the (ranking example_model 0 ''kissa'') + the (ranking example_model 1 ''kissa'') = 1"
    by (auto simp: l v two)
  with h1 h2 h3 v l show ?thesis by auto
qed


section \<open>TextTopics: find_topic_word\<close>



lemma suitable_topic_word_consistent:
  assumes "consistent_topics E S"
  shows "fst (suitable_topic_word E word S) = has_noun_reading (voikko_analyze E word)"
    and "consistent_topics E (snd (suitable_topic_word E word S))"
proof -
  from assms have c: "consistent E (tokenizer_of S)" by (simp add: consistent_topics_def)
  obtain a T' where a: "analyze E word (tokenizer_of S) = (a, T')"
    by (cases "analyze E word (tokenizer_of S)")
  with analyze_consistent[OF c, of word] have a1: "a = voikko_analyze E word" "consistent E T'"
    by simp_all
  show "fst (suitable_topic_word E word S) = has_noun_reading (voikko_analyze E word)"
    using assms a a1 by (auto simp: suitable_topic_word_def consistent_topics_def split: option.splits)
  show "consistent_topics E (snd (suitable_topic_word E word S))"
    using assms a a1 by (auto simp: suitable_topic_word_def consistent_topics_def split: option.splits)
qed


lemma first_suitable_word_find:
  assumes "consistent_topics E S"
  shows "fst (first_suitable_word E walk S)
           = find (\<lambda>w. has_noun_reading (voikko_analyze E w)) (map fst walk)
       \<and> consistent_topics E (snd (first_suitable_word E walk S))"
  using assms
proof (induction walk arbitrary: S)
  case Nil
  then show ?case by simp
next
  case (Cons wc walk)
  obtain word c where wc: "wc = (word, c)" by (cases wc)
  obtain b S1 where s: "suitable_topic_word E word S = (b, S1)"
    by (cases "suitable_topic_word E word S")
  with suitable_topic_word_consistent[OF Cons.prems, of word]
  have b: "b = has_noun_reading (voikko_analyze E word)" and c1: "consistent_topics E S1"
    by simp_all
  from Cons.IH[OF c1] wc s b c1 show ?case by (cases b) simp_all
qed

text \<open>The sorts.\<close>

lemma mset_argsort: "mset (argsort ties xs) = mset [0..<length xs]"
  by (simp add: argsort_def)

lemma mset_nargsort_descending: "mset (nargsort_descending ties key s) = mset s"
proof -
  let ?g = "rev s"
  have "mset (map (\<lambda>i. ?g ! i) (argsort ties (map key ?g)))
          = image_mset (\<lambda>i. ?g ! i) (mset (argsort ties (map key ?g)))" by simp
  also have "\<dots> = image_mset (\<lambda>i. ?g ! i) (mset [0..<length ?g])"
    by (simp only: mset_argsort length_map)
  also have "\<dots> = mset (map (\<lambda>i. ?g ! i) [0..<length ?g])" by simp
  also have "\<dots> = mset ?g" by (simp only: map_nth)
  finally show ?thesis by (simp add: nargsort_descending_def)
qed

lemma set_nargsort_descending: "set (nargsort_descending ties key s) = set s"
  using mset_nargsort_descending[of ties key s] by (rule mset_eq_setD)









text \<open>The series.\<close>

lemma notna_filter:
  "map (\<lambda>(k, x). (k, Some x)) (notna s) = filter (\<lambda>kv. snd kv \<noteq> None) s"
  by (induction s) (auto simp: notna_def split: option.splits)


lemma sort_values_split:
  "sort_values ties s = filter (\<lambda>kv. snd kv \<noteq> None) (sort_values ties s) @ isna s"
  by (auto simp: sort_values_def isna_def filter_empty_conv split_beta)

lemma set_notna: "set (notna s) = {(k, x). (k, Some x) \<in> set s}"
  by (auto simp: notna_def split: option.splits)

lemma mset_sort_values: "mset (sort_values ties s) = mset s"
proof -
  have "mset (sort_values ties s)
          = mset (map (\<lambda>(k, x). (k, Some x)) (notna s)) + mset (isna s)"
    by (simp add: sort_values_def mset_nargsort_descending)
  also have "\<dots> = mset (filter (\<lambda>kv. snd kv \<noteq> None) s) + mset (filter (\<lambda>kv. \<not> snd kv \<noteq> None) s)"
    by (simp only: notna_filter isna_def not_not)
  also have "\<dots> = mset s" by (simp only: mset_filter multiset_partition[symmetric])
  finally show ?thesis .
qed

lemma set_sort_values: "set (sort_values ties s) = set s"
  using mset_sort_values[of ties s] by (rule mset_eq_setD)





lemma set_align_index: "set (align_index l r) = set l \<union> set r"
  by (auto simp: align_index_def)


lemma mset_value_counts:
  "mset (value_counts ties xs) = mset (map (\<lambda>w. (w, count_list xs w)) (rev (remdups (rev xs))))"
  by (simp only: value_counts_def mset_nargsort_descending)

lemma distinct_keys_value_counts: "distinct (map fst (value_counts ties xs))"
proof -
  let ?l = "map (\<lambda>w. (w, count_list xs w)) (rev (remdups (rev xs)))"
  have "map fst ?l = rev (remdups (rev xs))" by (simp add: comp_def)
  then have d: "distinct (map fst ?l)" by simp
  have "mset (map fst (value_counts ties xs)) = mset (map fst ?l)"
    by (simp only: mset_map mset_value_counts)
  from mset_eq_imp_distinct_iff[OF this] d show ?thesis by blast
qed

lemma set_value_counts: "set (value_counts ties xs) = (\<lambda>w. (w, count_list xs w)) ` set xs"
proof -
  have "set (value_counts ties xs)
          = set (map (\<lambda>w. (w, count_list xs w)) (rev (remdups (rev xs))))"
    using mset_value_counts[of ties xs] by (rule mset_eq_setD)
  then show ?thesis by simp
qed

lemma keys_value_counts: "set (map fst (value_counts ties xs)) = set xs"
  by (simp add: set_value_counts image_image)

lemma map_of_value_counts:
  "map_of (value_counts ties xs) w = (if w \<in> set xs then Some (count_list xs w) else None)"
proof (cases "w \<in> set xs")
  case True
  then have "(w, count_list xs w) \<in> set (value_counts ties xs)"
    by (simp add: set_value_counts)
  with distinct_keys_value_counts[of ties xs] True show ?thesis by simp
next
  case False
  then have "w \<notin> fst ` set (value_counts ties xs)" by (simp add: set_value_counts image_image)
  with False show ?thesis by (simp add: map_of_eq_None_iff)
qed



lemma map_of_map_log:
  "map_of (map_log s) w = map_option (\<lambda>c. Some (ln (real c))) (map_of s w)"
  by (induction s) (auto simp: map_log_def)

lemma keys_map_log: "map fst (map_log s) = map fst s"
  by (simp add: map_log_def split_beta)








text \<open>\<open>find_topic_word\<close> when the decorator has no entry and \<open>topic_words\<close> returns.\<close>

lemma find_topic_word_miss:
  assumes "consistent_topics E S"
    and "find_topic_word_cache S (text, topic_id) = None"
    and "topic_words M topic_id = Inr words"
  shows "fst (find_topic_word E M text topic_id S) =
           (case find (\<lambda>w. has_noun_reading (voikko_analyze E w))
                  (map fst (sort_values (float_ties M) (series_mul
                     (map_log (value_counts (int_ties M)
                        (fst (tokenize E (join_texts text) (tokenizer_of S)))))
                     words))) of
              Some w \<Rightarrow> Inr w
            | None \<Rightarrow> Inl RuntimeError)"
proof -
  obtain tokens T1 where t: "tokenize E (join_texts text) (tokenizer_of S) = (tokens, T1)"
    by (cases "tokenize E (join_texts text) (tokenizer_of S)")
  let ?S1 = "S\<lparr>tokenizer_of := T1\<rparr>"
  let ?walk = "sort_values (float_ties M) (series_mul (map_log (value_counts (int_ties M) tokens)) words)"
  from assms(1) have "consistent E (tokenizer_of S)" by (simp add: consistent_topics_def)
  from tokenize_consistent[OF this, of "join_texts text"] t have "consistent E T1" by simp
  with assms(1) have c1: "consistent_topics E ?S1" by (simp add: consistent_topics_def)
  obtain w S2 where f: "first_suitable_word E ?walk ?S1 = (w, S2)"
    by (cases "first_suitable_word E ?walk ?S1")
  with first_suitable_word_find[OF c1, of ?walk]
  have w: "w = find (\<lambda>w. has_noun_reading (voikko_analyze E w)) (map fst ?walk)" by simp
  show ?thesis
    using assms(2,3) t f w by (simp add: find_topic_word_def Let_def split: option.splits)
qed

lemma consistent_topics_new: "consistent_topics E new_text_topics"
  by (simp add: consistent_topics_def new_text_topics_def consistent_new)

lemma example_topic_words:
  "topic_words example_model 0
     = Inr [(''kissa'', Some (3/4)), (''juosta'', Some (1/2)), (''koira'', Some (1/4))]"
  "topic_words verb_model 0 = Inr [(''juosta'', Some 1)]"
  by (simp_all add: topic_words_def example_model_def verb_model_def argsort_def np_divide_def)

lemma example_tokens:
  "fst (tokenize example_voikko (join_texts [''juoksivat juosta kissa''])
         (tokenizer_of new_text_topics)) = [''juosta'', ''juosta'', ''kissa'']"
  "fst (tokenize example_voikko (join_texts [''juoksivat nopeasti''])
         (tokenizer_of new_text_topics)) = [''juosta'', ''nopeasti'']"
  "fst (tokenize example_voikko (join_texts [''Koirat juoksivat''])
         (tokenizer_of new_text_topics)) = [''koira'', ''juosta'']"
  "fst (tokenize example_voikko (join_texts [''kissa juosta''])
         (tokenizer_of new_text_topics)) = [''kissa'', ''juosta'']"
  "fst (tokenize example_voikko (join_texts [''kissa koira''])
         (tokenizer_of new_text_topics)) = [''kissa'', ''koira'']"
  by (simp_all add: tokenize_def splitlines_def linebreak_def stem.simps tokenize_paragraph.simps
        example_voikko_def example_analyze_def example_suggest_def analyze_def suggest_def
        new_text_topics_def new_tokenizer_def store_stem_def ascii_lower_def ascii_wordchar_def
        FINNISH_STOPWORD_CLASSES_def err_treshold_def Let_def)

lemma example_walks:
  "sort_values (float_ties example_model)
     (series_mul (map_log (value_counts (int_ties example_model) [''juosta'', ''juosta'', ''kissa'']))
       [(''kissa'', Some (3/4)), (''juosta'', Some (1/2)), (''koira'', Some (1/4))])
     = [(''juosta'', Some (ln 2 * (1/2))), (''kissa'', Some 0), (''koira'', None)]"
  "sort_values (float_ties verb_model)
     (series_mul (map_log (value_counts (int_ties verb_model) [''juosta'', ''nopeasti'']))
       [(''juosta'', Some 1)])
     = [(''juosta'', Some 0), (''nopeasti'', None)]"
  "sort_values (float_ties verb_model)
     (series_mul (map_log (value_counts (int_ties verb_model) [''koira'', ''juosta'']))
       [(''juosta'', Some 1)])
     = [(''juosta'', Some 0), (''koira'', None)]"
  "sort_values (float_ties verb_model)
     (series_mul (map_log (value_counts (int_ties verb_model) [''kissa'', ''juosta'']))
       [(''juosta'', Some 1)])
     = [(''juosta'', Some 0), (''kissa'', None)]"
  "isna (series_mul (map_log (value_counts (int_ties verb_model) [''kissa'', ''juosta''])) [(''juosta'', Some 1)])
     = [(''kissa'', None)]"
  "sort_values (float_ties example_model)
     (series_mul (map_log (value_counts (int_ties example_model) [''kissa'', ''koira'']))
       [(''kissa'', Some (3/4)), (''juosta'', Some (1/2)), (''koira'', Some (1/4))])
     = [(''kissa'', Some 0), (''koira'', Some 0), (''juosta'', None)]"
  by (simp_all add: sort_values_def series_mul_def map_log_def value_counts_def align_index_def
        notna_def isna_def nargsort_descending_def argsort_def example_model_def verb_model_def)



lemma find_append_none:
  "\<forall>x \<in> set xs. \<not> P x \<Longrightarrow> find P (xs @ ys) = find P ys"
  by (induction xs) simp_all

text \<open>
  C8, as the code has it. The series that \<open>find_topic_word\<close> walks has an entry for
  every word of the collection and for every word of the ranking of the topic. A word
  that is in both has the score \<open>log(count) * relevance\<close>; any other word has no score
  (\<open>NaN\<close>). The words without score are not left out: they come after the scored
  words, in index order, and when no scored word is suitable the first suitable one among
  them is returned.
\<close>

theorem find_topic_word_scores:
  assumes "consistent_topics E S"
    and "find_topic_word_cache S (text, topic_id) = None"
    and "topic_words M topic_id = Inr words"
    and "tokens = fst (tokenize E (join_texts text) (tokenizer_of S))"
    and "counts = series_mul (map_log (value_counts (int_ties M) tokens)) words"
  shows "fst ` set (sort_values (float_ties M) counts) = set tokens \<union> fst ` set words
       \<and> (\<forall>wc \<in> set (sort_values (float_ties M) counts).
             snd wc = (case (fst wc \<in> set tokens, map_of words (fst wc)) of
                         (True, Some (Some relevance)) \<Rightarrow>
                           Some (ln (real (count_list tokens (fst wc))) * relevance)
                       | _ \<Rightarrow> None))
       \<and> sort_values (float_ties M) counts =
           filter (\<lambda>wc. snd wc \<noteq> None) (sort_values (float_ties M) counts) @ isna counts
       \<and> ((\<forall>wc \<in> set (sort_values (float_ties M) counts). snd wc \<noteq> None \<longrightarrow>
               \<not> has_noun_reading (voikko_analyze E (fst wc)))
           \<longrightarrow> fst (find_topic_word E M text topic_id S) =
                 (case find (\<lambda>w. has_noun_reading (voikko_analyze E w)) (map fst (isna counts)) of
                    Some w \<Rightarrow> Inr w
                  | None \<Rightarrow> Inl RuntimeError))"
proof (intro conjI ballI impI)
  have "fst ` set counts = set (align_index (map fst (map_log (value_counts (int_ties M) tokens))) (map fst words))"
    unfolding assms(5) series_mul_def by (simp add: image_image)
  also have "\<dots> = set tokens \<union> fst ` set words"
    by (simp add: set_align_index keys_map_log keys_value_counts del: set_map)
       (simp add: keys_value_counts[simplified])
  finally show "fst ` set (sort_values (float_ties M) counts) = set tokens \<union> fst ` set words"
    by (simp add: set_sort_values)
next
  fix wc assume "wc \<in> set (sort_values (float_ties M) counts)"
  then have "wc \<in> set counts" by (simp add: set_sort_values)
  then obtain k where k: "wc = (k, case (map_of (map_log (value_counts (int_ties M) tokens)) k, map_of words k) of
                         (Some (Some x), Some (Some y)) \<Rightarrow> Some (x * y)
                       | _ \<Rightarrow> None)"
    unfolding assms(5) series_mul_def by auto
  have f: "fst wc = k" by (subst k) simp
  have v: "snd wc = (case (map_of (map_log (value_counts (int_ties M) tokens)) k, map_of words k) of
                         (Some (Some x), Some (Some y)) \<Rightarrow> Some (x * y)
                       | _ \<Rightarrow> None)" by (subst k) simp
  show "snd wc = (case (fst wc \<in> set tokens, map_of words (fst wc)) of
                         (True, Some (Some relevance)) \<Rightarrow>
                           Some (ln (real (count_list tokens (fst wc))) * relevance)
                       | _ \<Rightarrow> None)"
    unfolding f v
    by (simp add: map_of_map_log map_of_value_counts split: option.splits bool.splits)
next
  show "sort_values (float_ties M) counts =
           filter (\<lambda>wc. snd wc \<noteq> None) (sort_values (float_ties M) counts) @ isna counts"
    by (rule sort_values_split)
next
  assume none: "\<forall>wc \<in> set (sort_values (float_ties M) counts). snd wc \<noteq> None \<longrightarrow>
               \<not> has_noun_reading (voikko_analyze E (fst wc))"
  let ?P = "\<lambda>w. has_noun_reading (voikko_analyze E w)"
  let ?scored = "filter (\<lambda>wc. snd wc \<noteq> None) (sort_values (float_ties M) counts)"
  have "\<forall>w \<in> set (map fst ?scored). \<not> ?P w" using none by auto
  then have "find ?P (map fst ?scored @ map fst (isna counts)) = find ?P (map fst (isna counts))"
    by (rule find_append_none)
  moreover have "map fst (sort_values (float_ties M) counts) = map fst ?scored @ map fst (isna counts)"
    by (subst sort_values_split) simp
  ultimately have "find ?P (map fst (sort_values (float_ties M) counts)) = find ?P (map fst (isna counts))"
    by simp
  with find_topic_word_miss[OF assms(1,2,3)] show
    "fst (find_topic_word E M text topic_id S) =
       (case find ?P (map fst (isna counts)) of Some w \<Rightarrow> Inr w | None \<Rightarrow> Inl RuntimeError)"
    unfolding assms(4,5) by simp
qed

theorem find_topic_word_scores_witness:
  "consistent_topics example_voikko new_text_topics
   \<and> find_topic_word_cache new_text_topics ([''kissa juosta''], 0) = None
   \<and> topic_words verb_model 0 = Inr [(''juosta'', Some 1)]
   \<and> fst (tokenize example_voikko (join_texts [''kissa juosta'']) (tokenizer_of new_text_topics))
       = [''kissa'', ''juosta'']
   \<and> sort_values (float_ties verb_model)
      (series_mul (map_log (value_counts (int_ties verb_model) [''kissa'', ''juosta''])) [(''juosta'', Some 1)])
       = [(''juosta'', Some 0), (''kissa'', None)]
   \<and> \<not> has_noun_reading (voikko_analyze example_voikko ''juosta'')
   \<and> fst (find_topic_word example_voikko verb_model [''kissa juosta''] 0 new_text_topics)
       = Inr ''kissa''"
proof -
  have c: "consistent_topics example_voikko new_text_topics" by (rule consistent_topics_new)
  have m: "find_topic_word_cache new_text_topics ([''kissa juosta''], 0) = None"
    by (simp add: new_text_topics_def)
  note w = example_topic_words(2)
  note t = example_tokens(4)
  note s = example_walks(4)
  have v: "\<not> has_noun_reading (voikko_analyze example_voikko ''juosta'')"
    by (simp add: example_voikko_def example_analyze_def)
  have k: "has_noun_reading (voikko_analyze example_voikko ''kissa'')"
    by (simp add: example_voikko_def example_analyze_def)
  note th = find_topic_word_scores[OF c m w t[symmetric] refl]
  have "\<forall>wc \<in> set (sort_values (float_ties verb_model)
     (series_mul (map_log (value_counts (int_ties verb_model) [''kissa'', ''juosta'']))
                      [(''juosta'', Some 1)])).
          snd wc \<noteq> None \<longrightarrow> \<not> has_noun_reading (voikko_analyze example_voikko (fst wc))"
    unfolding s using v by simp
  with th have "fst (find_topic_word example_voikko verb_model [''kissa juosta''] 0 new_text_topics) =
      (case find (\<lambda>w. has_noun_reading (voikko_analyze example_voikko w))
              (map fst (isna (series_mul (map_log (value_counts (int_ties verb_model) [''kissa'', ''juosta'']))
                      [(''juosta'', Some 1)]))) of
         Some w \<Rightarrow> Inr w | None \<Rightarrow> Inl RuntimeError)" by blast
  then have r: "fst (find_topic_word example_voikko verb_model [''kissa juosta''] 0 new_text_topics)
       = Inr ''kissa''"
    unfolding example_walks(5) using k by simp
  show ?thesis using c m w t s v r by blast
qed

text \<open>
  C8 as it is stated fails. The vocabulary of the model is the single verb \<open>juosta\<close>;
  the collection holds a noun and the verb. \<open>koira\<close> is no word of the ranking, so
  it has no score; it is walked all the same, after the verb, and returned.
\<close>

theorem word_outside_ranking_returned:
  "ranking verb_model 0 ''koira'' = None
   \<and> map_of [(''juosta'', Some (1 :: real))] ''koira'' = None
   \<and> topic_words verb_model 0 = Inr [(''juosta'', Some 1)]
   \<and> fst (tokenize example_voikko (join_texts [''Koirat juoksivat'']) (tokenizer_of new_text_topics))
       = [''koira'', ''juosta'']
   \<and> fst (find_topic_word example_voikko verb_model [''Koirat juoksivat''] 0 new_text_topics)
       = Inr ''koira''"
proof -
  have c: "consistent_topics example_voikko new_text_topics" by (rule consistent_topics_new)
  have m: "find_topic_word_cache new_text_topics ([''Koirat juoksivat''], 0) = None"
    by (simp add: new_text_topics_def)
  have r: "fst (find_topic_word example_voikko verb_model [''Koirat juoksivat''] 0
            new_text_topics) = Inr ''koira''"
    using find_topic_word_miss[OF c m example_topic_words(2)]
    unfolding example_tokens example_walks
    by (simp add: example_voikko_def example_analyze_def)
  have k: "ranking verb_model 0 ''koira'' = None"
    by (simp add: ranking_def example_topic_words)
  show ?thesis using r k example_topic_words(2) example_tokens(3) by simp
qed


section \<open>TextTopics: compare_series\<close>




















end
